theory Spec2Isabelle
  imports Complex_Main
begin

chapter \<open>hubproxy-node: the TTL cache, the rate limiter, the CIDR engine and the two proxies\<close>

text \<open>
  A shallow embedding of the JavaScript sources. JavaScript strings are modelled as
  \<^typ>\<open>string\<close>, read as sequences of code units below 256; \<open>Date.now()\<close> is an
  explicit argument \<open>now\<close> (integer milliseconds); the upstream servers are
  parameters of the handlers.
\<close>

section \<open>utils/cache.js\<close>

subsection \<open>The JavaScript \<open>Map\<close>: keys in insertion order\<close>

text \<open>
  A JavaScript \<open>Map\<close> iterates its keys in the order of their first insertion;
  \<open>Map.set\<close> on a key that is present replaces the value and keeps the position,
  on a new key it appends; \<open>Map.delete\<close> removes the key. The model is an association
  list in iteration order.
\<close>

type_synonym ('k, 'v) jsmap = "('k \<times> 'v) list"

definition map_has :: "'k \<Rightarrow> ('k, 'v) jsmap \<Rightarrow> bool" where
  "map_has k m = (k \<in> fst ` set m)"

fun map_set :: "'k \<Rightarrow> 'v \<Rightarrow> ('k, 'v) jsmap \<Rightarrow> ('k, 'v) jsmap" where
  "map_set k v [] = [(k, v)]"
| "map_set k v ((k', v') # m) = (if k' = k then (k, v) # m else (k', v') # map_set k v m)"

definition map_delete :: "'k \<Rightarrow> ('k, 'v) jsmap \<Rightarrow> ('k, 'v) jsmap" where
  "map_delete k m = filter (\<lambda>p. fst p \<noteq> k) m"

subsection \<open>class Cache\<close>

record 'v entry =
  val :: 'v
  expiresAt :: int

record ('k, 'v) Cache =
  data :: "('k, 'v entry) jsmap"
  maxSize :: int
  defaultTTL :: int

text \<open>\<open>constructor(maxSize, defaultTTL)\<close>\<close>

definition newCache :: "int \<Rightarrow> int \<Rightarrow> ('k, 'v) Cache" where
  "newCache m t = \<lparr>data = [], maxSize = m, defaultTTL = t\<rparr>"

text \<open>\<open>get size()\<close>\<close>

definition cache_size :: "('k, 'v) Cache \<Rightarrow> int" where
  "cache_size c = int (length (data c))"

text \<open>\<open>get(key)\<close>: a miss is \<open>None\<close>; an expired entry is deleted and reported as a miss.\<close>

definition cache_get :: "'k \<Rightarrow> int \<Rightarrow> ('k, 'v) Cache \<Rightarrow> 'v option \<times> ('k, 'v) Cache" where
  "cache_get key now c =
     (case map_of (data c) key of
        None \<Rightarrow> (None, c)
      | Some e \<Rightarrow>
          if now > expiresAt e then (None, c\<lparr>data := map_delete key (data c)\<rparr>)
          else (Some (val e), c))"

text \<open>\<open>cleanup()\<close>: every entry with \<open>now > expiresAt\<close> is deleted.\<close>

definition cleanup :: "int \<Rightarrow> ('k, 'v) Cache \<Rightarrow> ('k, 'v) Cache" where
  "cleanup now c = c\<lparr>data := filter (\<lambda>p. \<not> now > expiresAt (snd p)) (data c)\<rparr>"

text \<open>
  The second \<open>if\<close> of \<open>set\<close>: \<open>this.data.keys().next().value\<close> is the first key in
  iteration order (\<open>undefined\<close> on an empty map, whose deletion changes nothing).
\<close>

definition evictFirst :: "('k, 'v) Cache \<Rightarrow> ('k, 'v) Cache" where
  "evictFirst c =
     (case data c of
        [] \<Rightarrow> c
      | p # _ \<Rightarrow> c\<lparr>data := map_delete (fst p) (data c)\<rparr>)"

text \<open>\<open>set(key, value, ttl = this.defaultTTL)\<close>; the optional argument is \<open>None\<close> when left out.\<close>

definition cache_set :: "'k \<Rightarrow> 'v \<Rightarrow> int option \<Rightarrow> int \<Rightarrow> ('k, 'v) Cache \<Rightarrow> ('k, 'v) Cache" where
  "cache_set key v ttl now c =
     (let ttl' = (case ttl of None \<Rightarrow> defaultTTL c | Some t \<Rightarrow> t);
          c1 = (if cache_size c \<ge> maxSize c then cleanup now c else c);
          c2 = (if cache_size c1 \<ge> maxSize c1 then evictFirst c1 else c1)
      in c2\<lparr>data := map_set key \<lparr>val = v, expiresAt = now + ttl'\<rparr> (data c2)\<rparr>)"

text \<open>\<open>delete(key)\<close> and \<open>clear()\<close>\<close>

definition cache_delete :: "'k \<Rightarrow> ('k, 'v) Cache \<Rightarrow> ('k, 'v) Cache" where
  "cache_delete key c = c\<lparr>data := map_delete key (data c)\<rparr>"

definition cache_clear :: "('k, 'v) Cache \<Rightarrow> ('k, 'v) Cache" where
  "cache_clear c = c\<lparr>data := []\<rparr>"

text \<open>A call of one of the four operations, with the clock reading at the call.\<close>

datatype ('k, 'v) cache_op =
    Get 'k int
  | Set 'k 'v "int option" int
  | Delete 'k
  | Clear

fun apply_op :: "('k, 'v) cache_op \<Rightarrow> ('k, 'v) Cache \<Rightarrow> ('k, 'v) Cache" where
  "apply_op (Get k now) c = snd (cache_get k now c)"
| "apply_op (Set k v ttl now) c = cache_set k v ttl now c"
| "apply_op (Delete k) c = cache_delete k c"
| "apply_op Clear c = cache_clear c"

fun run_ops :: "('k, 'v) cache_op list \<Rightarrow> ('k, 'v) Cache \<Rightarrow> ('k, 'v) Cache" where
  "run_ops [] c = c"
| "run_ops (x # xs) c = run_ops xs (apply_op x c)"

text \<open>The keys of a \<open>Map\<close> are distinct; every operation keeps them so.\<close>

definition wf_cache :: "('k, 'v) Cache \<Rightarrow> bool" where
  "wf_cache c = distinct (map fst (data c))"


section \<open>JavaScript primitives used by the sources\<close>

subsection \<open>Numbers\<close>

text \<open>
  A JavaScript Number is an IEEE 754 double: \<open>NaN\<close>, the two infinities
  (\<open>Infinity True\<close> is \<open>-Infinity\<close>), the two zeros (\<open>Num 0\<close> is \<open>+0\<close>, \<open>NegZero\<close> is
  \<open>-0\<close>) and the finite values \<open>Num r\<close>, where the rational \<open>r\<close> is the value of the
  double. Every arithmetic operation computes the exact result and rounds it to the
  nearest double, a tie going to the even mantissa.
\<close>

datatype jsnum = NaN | Infinity bool | NegZero | Num rat

definition pow2 :: "int \<Rightarrow> rat" where
  "pow2 e = 2 powi e"

text \<open>\<open>floorLog2 x\<close> is the exponent \<open>e\<close> with \<open>2^e \<le> x < 2^(e+1)\<close>, for \<open>x > 0\<close>: the number
  of halvings that bring \<open>x \<ge> 1\<close> below 2, or minus the number of doublings that bring
  \<open>x < 1\<close> up to 1.\<close>

function lgUp :: "rat \<Rightarrow> int" where
  "lgUp x = (if x < 2 then 0 else lgUp (x / 2) + 1)"
  by pat_completeness auto
termination
proof (relation "measure (\<lambda>x. nat \<lfloor>x\<rfloor>)")
  fix x :: rat
  assume "\<not> x < 2"
  then have x: "2 \<le> x" by simp
  then have "x / 2 \<le> x - 1" by simp
  then have "\<lfloor>x / 2\<rfloor> \<le> \<lfloor>x - 1\<rfloor>" by (rule floor_mono)
  moreover have "2 \<le> \<lfloor>x\<rfloor>" using x by (simp add: le_floor_iff)
  ultimately show "(x / 2, x) \<in> measure (\<lambda>x. nat \<lfloor>x\<rfloor>)" by simp
qed simp

function lgDown :: "rat \<Rightarrow> int" where
  "lgDown x = (if x \<le> 0 \<or> 1 \<le> x then 0 else lgDown (2 * x) + 1)"
  by pat_completeness auto
termination
proof (relation "measure (\<lambda>x. nat \<lceil>1 / x\<rceil>)")
  fix x :: rat
  assume "\<not> (x \<le> 0 \<or> 1 \<le> x)"
  then have x: "0 < x" "x < 1" by simp_all
  define y where "y = 1 / x"
  have y: "1 < y" using x by (simp add: y_def)
  have h: "1 / (2 * x) = y / 2" by (simp add: y_def)
  have c2: "2 \<le> \<lceil>y\<rceil>" using y by (simp add: le_ceiling_iff)
  have "y / 2 \<le> of_int (\<lceil>y\<rceil> - 1)"
  proof (cases "2 \<le> y")
    case True
    then have "y / 2 \<le> y - 1" by simp
    also have "\<dots> \<le> of_int \<lceil>y\<rceil> - 1" by simp
    finally show ?thesis by simp
  next
    case False
    then have "y / 2 < 1" by simp
    moreover have "1 \<le> \<lceil>y\<rceil> - 1" using c2 by simp
    then have "(of_int 1 :: rat) \<le> of_int (\<lceil>y\<rceil> - 1)" by (simp only: of_int_le_iff)
    ultimately show ?thesis by linarith
  qed
  then have "\<lceil>y / 2\<rceil> \<le> \<lceil>y\<rceil> - 1" by (rule ceiling_le)
  with c2 show "(2 * x, x) \<in> measure (\<lambda>x. nat \<lceil>1 / x\<rceil>)"
    unfolding in_measure h y_def[symmetric] by simp
qed simp

declare lgUp.simps [simp del] lgDown.simps [simp del]

definition floorLog2 :: "rat \<Rightarrow> int" where
  "floorLog2 x = (if 1 \<le> x then lgUp x else - lgDown x)"

text \<open>The nearest integer, a tie going to the even one.\<close>

definition roundHalfEven :: "rat \<Rightarrow> int" where
  "roundHalfEven q =
     (let f = \<lfloor>q\<rfloor>; d = q - of_int f
      in if d < 1 / 2 then f else if 1 / 2 < d then f + 1 else if even f then f else f + 1)"

text \<open>
  Rounding a magnitude \<open>x \<ge> 0\<close> to a double. The doubles between \<open>2^e\<close> and \<open>2^(e+1)\<close>
  are the multiples of \<open>2^(e-52)\<close> (53 bits of mantissa); below \<open>2^(-1022)\<close> they are the
  multiples of \<open>2^(-1074)\<close> (the subnormal numbers). \<open>roundMag x\<close> is the nearest multiple;
  a result of \<open>2^1024\<close> or more is an infinity, a result of 0 keeps the sign.
\<close>

definition binade :: "rat \<Rightarrow> int" where
  "binade x = max (floorLog2 x) (- 1022)"

definition roundMag :: "rat \<Rightarrow> rat" where
  "roundMag x = of_int (roundHalfEven (x / pow2 (binade x - 52))) * pow2 (binade x - 52)"

definition toNumber :: "bool \<Rightarrow> rat \<Rightarrow> jsnum" where
  "toNumber neg x =
     (let m = roundMag x
      in if 1024 \<le> floorLog2 m then Infinity neg
         else if m = 0 then (if neg then NegZero else Num 0)
         else Num (if neg then - m else m))"

definition fromInt :: "int \<Rightarrow> jsnum" where
  "fromInt n = toNumber (n < 0) (of_int \<bar>n\<bar>)"

text \<open>The values of the type that are Numbers: a finite value is a double below \<open>2^1024\<close>.\<close>

definition isNumber :: "jsnum \<Rightarrow> bool" where
  "isNumber v = (case v of Num r \<Rightarrow> roundMag \<bar>r\<bar> = \<bar>r\<bar> \<and> floorLog2 \<bar>r\<bar> < 1024 | _ \<Rightarrow> True)"

definition isNegative :: "jsnum \<Rightarrow> bool" where
  "isNegative v = (case v of NaN \<Rightarrow> False | Infinity s \<Rightarrow> s | NegZero \<Rightarrow> True | Num r \<Rightarrow> r < 0)"

definition magnitude :: "jsnum \<Rightarrow> rat option" where
  "magnitude v = (case v of Num r \<Rightarrow> Some \<bar>r\<bar> | NegZero \<Rightarrow> Some 0 | _ \<Rightarrow> None)"

definition numval :: "jsnum \<Rightarrow> rat" where
  "numval v = (case v of Num r \<Rightarrow> r | _ \<Rightarrow> 0)"

text \<open>\<open>a * b\<close> and \<open>a / b\<close>: the sign is the exclusive or of the signs; \<open>Infinity * 0\<close>,
  \<open>0 / 0\<close> and \<open>Infinity / Infinity\<close> are \<open>NaN\<close>; a finite non-zero value over a zero is an
  infinity.\<close>

definition numMul :: "jsnum \<Rightarrow> jsnum \<Rightarrow> jsnum" where
  "numMul a b =
     (if a = NaN \<or> b = NaN then NaN
      else (case (magnitude a, magnitude b) of
              (Some x, Some y) \<Rightarrow> toNumber (isNegative a \<noteq> isNegative b) (x * y)
            | (Some x, None) \<Rightarrow> if x = 0 then NaN else Infinity (isNegative a \<noteq> isNegative b)
            | (None, Some y) \<Rightarrow> if y = 0 then NaN else Infinity (isNegative a \<noteq> isNegative b)
            | (None, None) \<Rightarrow> Infinity (isNegative a \<noteq> isNegative b)))"

definition numDiv :: "jsnum \<Rightarrow> jsnum \<Rightarrow> jsnum" where
  "numDiv a b =
     (if a = NaN \<or> b = NaN then NaN
      else (case (magnitude a, magnitude b) of
              (Some x, Some y) \<Rightarrow>
                if y = 0 then (if x = 0 then NaN else Infinity (isNegative a \<noteq> isNegative b))
                else toNumber (isNegative a \<noteq> isNegative b) (x / y)
            | (Some x, None) \<Rightarrow> if isNegative a \<noteq> isNegative b then NegZero else Num 0
            | (None, Some y) \<Rightarrow> Infinity (isNegative a \<noteq> isNegative b)
            | (None, None) \<Rightarrow> NaN))"

text \<open>\<open>a + b\<close>: opposite infinities give \<open>NaN\<close>; an exact sum of 0 is \<open>+0\<close> unless both
  operands are \<open>-0\<close>. \<open>a - b\<close> is \<open>a + (-b)\<close>.\<close>

definition numAdd :: "jsnum \<Rightarrow> jsnum \<Rightarrow> jsnum" where
  "numAdd a b =
     (if a = NaN \<or> b = NaN then NaN
      else (case (magnitude a, magnitude b) of
              (Some x, Some y) \<Rightarrow>
                if numval a + numval b = 0 then (if isNegative a \<and> isNegative b then NegZero else Num 0)
                else toNumber (numval a + numval b < 0) \<bar>numval a + numval b\<bar>
            | (Some x, None) \<Rightarrow> b
            | (None, Some y) \<Rightarrow> a
            | (None, None) \<Rightarrow> if isNegative a = isNegative b then a else NaN))"

definition numNeg :: "jsnum \<Rightarrow> jsnum" where
  "numNeg v = (case v of NaN \<Rightarrow> NaN | Infinity s \<Rightarrow> Infinity (\<not> s) | NegZero \<Rightarrow> Num 0
               | Num r \<Rightarrow> if r = 0 then NegZero else Num (- r))"

definition numSub :: "jsnum \<Rightarrow> jsnum \<Rightarrow> jsnum" where
  "numSub a b = numAdd a (numNeg b)"

text \<open>\<open>a < b\<close>: false when either is \<open>NaN\<close>; the two zeros are equal.\<close>

definition numLt :: "jsnum \<Rightarrow> jsnum \<Rightarrow> bool" where
  "numLt a b =
     (if a = NaN \<or> b = NaN then False
      else (case (magnitude a, magnitude b) of
              (Some x, Some y) \<Rightarrow> numval a < numval b
            | (Some x, None) \<Rightarrow> \<not> isNegative b
            | (None, Some y) \<Rightarrow> isNegative a
            | (None, None) \<Rightarrow> isNegative a \<and> \<not> isNegative b))"

text \<open>\<open>a <= b\<close>\<close>

definition numLe :: "jsnum \<Rightarrow> jsnum \<Rightarrow> bool" where
  "numLe a b = (a \<noteq> NaN \<and> b \<noteq> NaN \<and> \<not> numLt b a)"

text \<open>\<open>Math.min(a, b)\<close> and \<open>Math.max(a, b)\<close>: \<open>NaN\<close> when either is; \<open>-0\<close> counts as
  smaller than \<open>+0\<close>.\<close>

definition mathMin :: "jsnum \<Rightarrow> jsnum \<Rightarrow> jsnum" where
  "mathMin a b =
     (if a = NaN \<or> b = NaN then NaN
      else if numLt b a then b else if numLt a b then a
      else if isNegative a then a else b)"

definition mathMax :: "jsnum \<Rightarrow> jsnum \<Rightarrow> jsnum" where
  "mathMax a b =
     (if a = NaN \<or> b = NaN then NaN
      else if numLt a b then b else if numLt b a then a
      else if isNegative a then b else a)"

text \<open>The integer that a bitwise operator or a typed array reads from a Number, before
  it is reduced modulo \<open>2^32\<close> or \<open>2^8\<close>: the value cut towards 0, and 0 for \<open>NaN\<close> and the
  infinities.\<close>

definition toInteger :: "jsnum \<Rightarrow> int" where
  "toInteger v = (case v of Num r \<Rightarrow> (if r < 0 then - \<lfloor>- r\<rfloor> else \<lfloor>r\<rfloor>) | _ \<Rightarrow> 0)"

text \<open>White space as \<open>String.prototype.trim\<close>, \<open>parseInt\<close> and the regular expression
  class \<open>\s\<close> read it, among the code units below 256: TAB, LF, VT, FF, CR, space, NBSP.\<close>

definition isWhiteSpace :: "char \<Rightarrow> bool" where
  "isWhiteSpace c = (of_char c \<in> {9, 10, 11, 12, 13, 32, 160 :: nat})"

text \<open>Line terminators, which the regular expression atom \<open>.\<close> does not match: LF and CR.\<close>

definition isLineTerminator :: "char \<Rightarrow> bool" where
  "isLineTerminator c = (of_char c \<in> {10, 13 :: nat})"

text \<open>The value of a digit in radix up to 36; letters count in both cases.\<close>

definition digitVal :: "char \<Rightarrow> nat option" where
  "digitVal c =
     (let n = (of_char c :: nat) in
      if 48 \<le> n \<and> n \<le> 57 then Some (n - 48)
      else if 97 \<le> n \<and> n \<le> 122 then Some (n - 87)
      else if 65 \<le> n \<and> n \<le> 90 then Some (n - 55)
      else None)"

definition isDigitOf :: "nat \<Rightarrow> char \<Rightarrow> bool" where
  "isDigitOf radix c = (case digitVal c of Some d \<Rightarrow> d < radix | None \<Rightarrow> False)"

definition digitsValue :: "nat \<Rightarrow> string \<Rightarrow> nat" where
  "digitsValue radix ds = foldl (\<lambda>acc c. acc * radix + the (digitVal c)) 0 ds"

text \<open>
  \<open>parseInt(s, radix)\<close> for radix 10 and 16: leading white space is skipped, one sign is
  read, for radix 16 a prefix \<open>0x\<close> or \<open>0X\<close> is dropped, and the longest run of digits
  of the radix is the value, rounded to a Number, with the sign; with no digit the
  result is \<open>NaN\<close>. (For radix 10 the standard lets an implementation read the digits
  after the twentieth as zeros; Node.js rounds the exact value.)
\<close>

definition parseInt :: "string \<Rightarrow> nat \<Rightarrow> jsnum" where
  "parseInt s radix =
     (let s1 = dropWhile isWhiteSpace s;
          neg = (take 1 s1 = ''-'');
          s2 = (if take 1 s1 = ''-'' \<or> take 1 s1 = ''+'' then drop 1 s1 else s1);
          s3 = (if radix = 16 \<and> (take 2 s2 = ''0x'' \<or> take 2 s2 = ''0X'') then drop 2 s2 else s2);
          ds = takeWhile (isDigitOf radix) s3
      in if ds = [] then NaN
         else toNumber neg (of_nat (digitsValue radix ds)))"

text \<open>\<open>s.split(c)\<close> for a separator of one character: never an empty list.\<close>

fun js_split :: "char \<Rightarrow> string \<Rightarrow> string list" where
  "js_split c [] = [[]]"
| "js_split c (x # xs) =
     (if x = c then [] # js_split c xs
      else (case js_split c xs of
              p # ps \<Rightarrow> (x # p) # ps
            | [] \<Rightarrow> [[x]]))"

text \<open>\<open>parts.join(sep)\<close>\<close>

fun js_join :: "string \<Rightarrow> string list \<Rightarrow> string" where
  "js_join sep [] = []"
| "js_join sep [p] = p"
| "js_join sep (p # q # ps) = p @ sep @ js_join sep (q # ps)"

text \<open>\<open>parts.indexOf(x)\<close>; \<open>-1\<close> is \<open>None\<close>.\<close>

fun indexOf :: "'a \<Rightarrow> 'a list \<Rightarrow> nat option" where
  "indexOf x [] = None"
| "indexOf x (y # ys) = (if y = x then Some 0 else map_option Suc (indexOf x ys))"

text \<open>\<open>s.trim()\<close>\<close>

definition trim :: "string \<Rightarrow> string" where
  "trim s = rev (dropWhile isWhiteSpace (rev (dropWhile isWhiteSpace s)))"

text \<open>\<open>s.startsWith(p)\<close> and \<open>s.endsWith(p)\<close>\<close>

definition startsWith :: "string \<Rightarrow> string \<Rightarrow> bool" where
  "startsWith s p = (take (length p) s = p)"

definition endsWith :: "string \<Rightarrow> string \<Rightarrow> bool" where
  "endsWith s p = (length p \<le> length s \<and> drop (length s - length p) s = p)"

text \<open>The store into a \<open>Uint8Array\<close>: the integer of the Number modulo 256.\<close>

definition toUint8 :: "jsnum \<Rightarrow> nat" where
  "toUint8 v = nat (toInteger v mod 256)"

text \<open>\<open>n.toString(16)\<close> for a natural number: lower-case digits, no leading zero.\<close>

definition hexDigit :: "nat \<Rightarrow> char" where
  "hexDigit d = ''0123456789abcdef'' ! d"

fun toHex :: "nat \<Rightarrow> string" where
  "toHex n = (if n < 16 then [hexDigit n] else toHex (n div 16) @ [hexDigit (n mod 16)])"

declare toHex.simps [simp del]

text \<open>\<open>s.toLowerCase()\<close> on code units below 256: the letters A to Z and the accented
  capitals 192 to 222 (without the multiplication sign 215) move up by 32.\<close>

definition toLowerChar :: "char \<Rightarrow> char" where
  "toLowerChar c =
     (let n = (of_char c :: nat)
      in if (65 \<le> n \<and> n \<le> 90) \<or> (192 \<le> n \<and> n \<le> 222 \<and> n \<noteq> 215) then char_of (n + 32) else c)"

definition toLowerCase :: "string \<Rightarrow> string" where
  "toLowerCase s = map toLowerChar s"

section \<open>middleware/ratelimiter.js\<close>

subsection \<open>Parsing addresses and prefixes\<close>

datatype js_error = RangeError | TypeError

text \<open>\<open>parseIPv4\<close>: the parts between dots, each through \<open>parseInt(p, 10)\<close>, stored
  into a \<open>Uint8Array\<close> of as many bytes as there are parts.\<close>

definition parseIPv4 :: "string \<Rightarrow> nat list" where
  "parseIPv4 ip = map (\<lambda>p. toUint8 (parseInt p 10)) (js_split CHR ''.'' ip)"

text \<open>
  The loop of \<open>parseIPv6\<close> over \<open>i = 0..7\<close>: \<open>parts[i] || '0'\<close> is \<open>'0'\<close> for a part
  that is missing or empty; \<open>(val >> 8) & 0xff\<close> and \<open>val & 0xff\<close> are bits 8 to 15 and
  0 to 7 of the integer of the value (its reduction modulo \<open>2^32\<close> keeps these bits).
\<close>

definition hiByte :: "jsnum \<Rightarrow> nat" where
  "hiByte v = nat ((toInteger v div 256) mod 256)"

definition loByte :: "jsnum \<Rightarrow> nat" where
  "loByte v = nat (toInteger v mod 256)"

definition groupBytes :: "string list \<Rightarrow> nat list" where
  "groupBytes parts =
     concat (map (\<lambda>i. let v = parseInt (if i < length parts \<and> parts ! i \<noteq> [] then parts ! i else ''0'') 16
                       in [hiByte v, loByte v]) [0..<8])"

text \<open>\<open>parseIPv6\<close>: \<open>Array(missing)\<close> throws a \<open>RangeError\<close> for a negative length.\<close>

definition parseIPv6 :: "string \<Rightarrow> js_error + nat list" where
  "parseIPv6 ip =
     (let parts = js_split CHR '':'' ip in
      case indexOf [] parts of
        None \<Rightarrow> Inr (groupBytes parts)
      | Some emptyIdx \<Rightarrow>
          (let bef = filter (\<lambda>p. p \<noteq> []) (take emptyIdx parts);
               aft = filter (\<lambda>p. p \<noteq> []) (drop (emptyIdx + 1) parts);
               missing = 8 - int (length bef) - int (length aft)
           in if missing < 0 then Inl RangeError
              else Inr (groupBytes (bef @ replicate (nat missing) ''0'' @ aft))))"

text \<open>
  \<open>parseCIDR\<close>: the bytes, the prefix and the family. \<open>[ip, prefix] = cidr.split('/')\<close>
  takes the first two parts; a missing second part is \<open>undefined\<close>, which \<open>parseInt\<close>
  reads as \<open>NaN\<close>.
\<close>

definition parseCIDR :: "string \<Rightarrow> js_error + (nat list \<times> jsnum \<times> bool)" where
  "parseCIDR cidr =
     (case (if CHR ''/'' \<in> set cidr
            then (case js_split CHR ''/'' cidr of
                    ip # p # _ \<Rightarrow> Inr (ip, parseInt p 10)
                  | [ip] \<Rightarrow> Inr (ip, NaN)
                  | [] \<Rightarrow> Inl TypeError)
            else Inr (cidr, if CHR '':'' \<in> set cidr then Num 128 else Num 32)) of
        Inl e \<Rightarrow> Inl e
      | Inr (ip, pfx) \<Rightarrow>
          (let isIPv6 = (CHR '':'' \<in> set ip) in
           case (if isIPv6 then parseIPv6 ip else Inr (parseIPv4 ip)) of
             Inl e \<Rightarrow> Inl e
           | Inr bytes \<Rightarrow> Inr (bytes, pfx, isIPv6)))"

subsection \<open>Membership\<close>

text \<open>\<open>Math.min(8, Math.max(0, prefix - i * 8))\<close>\<close>

definition bitsInThisByte :: "jsnum \<Rightarrow> nat \<Rightarrow> jsnum" where
  "bitsInThisByte pfx i = mathMin (Num 8) (mathMax (Num 0) (numSub pfx (fromInt (int i * 8))))"

text \<open>\<open>(0xff << (8 - bits)) & 0xff\<close>: the shift count is the integer of \<open>8 - bits\<close> modulo
  32 (0 for \<open>NaN\<close>), and the low byte of the shifted value is kept.\<close>

definition maskOf :: "jsnum \<Rightarrow> nat" where
  "maskOf bits = (255 * 2 ^ nat (toInteger (numSub (Num 8) bits) mod 32)) mod 256"

text \<open>\<open>bytes[i]\<close> in a bitwise operation: \<open>undefined\<close> counts as 0.\<close>

definition byteAt :: "nat list \<Rightarrow> nat \<Rightarrow> nat" where
  "byteAt bytes i = (if i < length bytes then bytes ! i else 0)"

text \<open>The \<open>for\<close> loop of \<open>isIPInCIDR\<close> over the indices still to visit.\<close>

fun matchBytes :: "nat list \<Rightarrow> nat list \<Rightarrow> jsnum \<Rightarrow> nat list \<Rightarrow> bool" where
  "matchBytes ipBytes cidrBytes pfx [] = True"
| "matchBytes ipBytes cidrBytes pfx (i # rest) =
     (let bits = bitsInThisByte pfx i in
      if bits = Num 0 \<or> bits = NegZero then True
      else if and (byteAt ipBytes i) (maskOf bits) \<noteq> and (byteAt cidrBytes i) (maskOf bits) then False
      else matchBytes ipBytes cidrBytes pfx rest)"

text \<open>\<open>isIPInCIDR\<close>: whatever is thrown inside the \<open>try\<close> block ends in \<open>return false\<close>.\<close>

definition isIPInCIDR :: "string \<Rightarrow> string \<Rightarrow> bool" where
  "isIPInCIDR ip cidr =
     (let isIPv6 = (CHR '':'' \<in> set ip) in
      case (if isIPv6 then parseIPv6 ip else Inr (parseIPv4 ip)) of
        Inl e \<Rightarrow> False
      | Inr ipBytes \<Rightarrow>
          (case parseCIDR cidr of
             Inl e \<Rightarrow> False
           | Inr (cidrBytes, pfx, cidrIsIPv6) \<Rightarrow>
               if isIPv6 \<noteq> cidrIsIPv6 then False
               else matchBytes ipBytes cidrBytes pfx [0..<length cidrBytes]))"

definition isIPInList :: "string \<Rightarrow> string list \<Rightarrow> bool" where
  "isIPInList ip list =
     list_ex (\<lambda>item. isIPInCIDR ip
                (if CHR ''/'' \<in> set item then item
                 else if CHR '':'' \<in> set ip then item @ ''/128'' else item @ ''/32'')) list"

subsection \<open>The key of the bucket table\<close>

text \<open>
  \<open>normalizeIP\<close>: a string with no colon is returned as it is; otherwise bytes 8 to 15 of
  the parsed address are set to 0 and the eight groups \<open>(bytes[i] << 8) | bytes[i + 1]\<close>
  are printed in hexadecimal, joined by colons, with \<open>/64\<close> appended. The
  \<open>RangeError\<close> of \<open>parseIPv6\<close> is not caught here.
\<close>

definition normalizeIP :: "string \<Rightarrow> js_error + string" where
  "normalizeIP ip =
     (if CHR '':'' \<notin> set ip then Inr ip
      else case parseIPv6 ip of
        Inl e \<Rightarrow> Inl e
      | Inr bytes0 \<Rightarrow>
          (let bytes = take 8 bytes0 @ replicate 8 0;
               parts = map (\<lambda>i. toHex (bytes ! (2 * i) * 256 + bytes ! (2 * i + 1))) [0..<8]
           in Inr (js_join '':'' parts @ ''/64'')))"

subsection \<open>The middleware\<close>

text \<open>
  An Express request as the handlers read it: \<open>req.method\<close>, \<open>req.path\<close>, the headers
  (\<open>req.headers\<close>, keyed by lower-case name) and the socket address. A header that is
  absent or empty is falsy.
\<close>

record request =
  reqMethod :: string
  path :: string
  headers :: "string \<rightharpoonup> string"
  remoteAddress :: string

definition truthy :: "string option \<Rightarrow> bool" where
  "truthy h = (case h of None \<Rightarrow> False | Some v \<Rightarrow> v \<noteq> [])"

text \<open>\<open>extractIP\<close>\<close>

definition extractIP :: "request \<Rightarrow> string" where
  "extractIP req =
     (if truthy (headers req ''x-forwarded-for'')
      then trim (hd (js_split CHR '','' (the (headers req ''x-forwarded-for''))))
      else if truthy (headers req ''x-real-ip'')
      then trim (the (headers req ''x-real-ip''))
      else (let ip = remoteAddress req
            in if startsWith ip ''::ffff:'' then drop 7 ip else ip))"

text \<open>\<open>ip.replace(/^\[|\]$/g, '')\<close>: one leading \<open>[\<close> and one trailing \<open>]\<close> are removed.\<close>

definition stripBrackets :: "string \<Rightarrow> string" where
  "stripBrackets ip =
     (let s = (if take 1 ip = ''['' then drop 1 ip else ip)
      in if s \<noteq> [] \<and> last s = CHR '']'' then butlast s else s)"

text \<open>
  The configuration the limiter reads, and a bucket. \<open>requestLimit\<close>, \<open>periodHours\<close> and
  \<open>tokens\<close> are Numbers; \<open>lastRefill\<close> and \<open>lastAccess\<close> hold values of \<open>Date.now()\<close>, the
  milliseconds since the epoch, an integer of at most \<open>8.64 * 10^15\<close> in absolute value.
\<close>

record rl_config =
  requestLimit :: jsnum
  periodHours :: jsnum
  whiteList :: "string list"
  blackList :: "string list"

record IPBucket =
  tokens :: jsnum
  lastRefill :: int
  lastAccess :: int

text \<open>The Numbers from \<open>p\<close> upwards, \<open>+Infinity\<close> among them; \<open>numAtLeast 0\<close> leaves out \<open>-0\<close>.\<close>

definition numAtLeast :: "rat \<Rightarrow> jsnum \<Rightarrow> bool" where
  "numAtLeast p v = (case v of Num r \<Rightarrow> p \<le> r | Infinity s \<Rightarrow> \<not> s | _ \<Rightarrow> False)"

definition isFinite :: "jsnum \<Rightarrow> bool" where
  "isFinite v = (case v of Num r \<Rightarrow> True | NegZero \<Rightarrow> True | _ \<Rightarrow> False)"

definition isTimeValue :: "int \<Rightarrow> bool" where
  "isTimeValue t = (\<bar>t\<bar> \<le> 8640000000000000)"

datatype rl_outcome = Next | Status403 | Status429 | Thrown js_error

text \<open>\<open>periodHours * 3600 * 1000\<close>, multiplied from the left.\<close>

definition periodMs :: "rl_config \<Rightarrow> jsnum" where
  "periodMs cfg = numMul (numMul (periodHours cfg) (Num 3600)) (Num 1000)"

definition exemptPath :: "string \<Rightarrow> bool" where
  "exemptPath p = (p = ''/'' \<or> p = ''/favicon.ico'' \<or> p = ''/images.html'' \<or>
                   p = ''/search.html'' \<or> startsWith p ''/public/'')"

text \<open>
  The token bucket of one key: the record found or created, refilled by
  \<open>(elapsed / periodMs) * requestLimit\<close>, then charged. \<open>now - record.lastRefill\<close> is the
  difference of two integers that are Numbers, rounded.
\<close>

definition refill :: "rl_config \<Rightarrow> int \<Rightarrow> IPBucket option \<Rightarrow> IPBucket" where
  "refill cfg now found =
     (let record0 = (case found of
                       None \<Rightarrow> \<lparr>tokens = requestLimit cfg, lastRefill = now, lastAccess = now\<rparr>
                     | Some r \<Rightarrow> r);
          elapsed = fromInt (now - lastRefill record0);
          refillAmount = numMul (numDiv elapsed (periodMs cfg)) (requestLimit cfg)
      in \<lparr>tokens = mathMin (requestLimit cfg) (numAdd (tokens record0) refillAmount),
          lastRefill = now, lastAccess = now\<rparr>)"

definition admit :: "rl_config \<Rightarrow> int \<Rightarrow> IPBucket option \<Rightarrow> rl_outcome \<times> IPBucket" where
  "admit cfg now found =
     (let r = refill cfg now found
      in if numLt (tokens r) (Num 1) then (Status429, r)
         else (Next, r\<lparr>tokens := numSub (tokens r) (Num 1)\<rparr>))"

text \<open>The middleware that \<open>createRateLimiter\<close> returns, on the table \<open>ipRecords\<close>.\<close>

definition rateLimiter ::
  "rl_config \<Rightarrow> int \<Rightarrow> request \<Rightarrow> (string \<rightharpoonup> IPBucket) \<Rightarrow> rl_outcome \<times> (string \<rightharpoonup> IPBucket)" where
  "rateLimiter cfg now req ipRecords =
     (if exemptPath (path req) then (Next, ipRecords)
      else
        (let cleanIP = stripBrackets (extractIP req) in
         if isIPInList cleanIP (blackList cfg) then (Status403, ipRecords)
         else if isIPInList cleanIP (whiteList cfg) then (Next, ipRecords)
         else (case normalizeIP cleanIP of
                 Inl e \<Rightarrow> (Thrown e, ipRecords)
               | Inr normalizedIP \<Rightarrow>
                   (let (outcome, r) = admit cfg now (ipRecords normalizedIP)
                    in (outcome, ipRecords(normalizedIP \<mapsto> r))))))"

subsection \<open>The text forms of an IPv6 address and the address they denote\<close>

text \<open>
  What the claims call a syntactically valid IPv6 address string, and its top 64 bits
  (RFC 4291, section 2.2): eight groups of one to four hexadecimal digits separated by
  colons; the same with one run of zero groups written \<open>::\<close>; and either form with the
  last two groups written as a dotted quad of decimal octets. The address is the list of
  its eight 16-bit groups; its top 64 bits are the first four.
\<close>

datatype ipv6_text =
    Full "string list"
  | Compressed "string list" "string list"
  | FullQuad "string list" "string list"
  | CompressedQuad "string list" "string list" "string list"

definition isHextet :: "string \<Rightarrow> bool" where
  "isHextet g = (1 \<le> length g \<and> length g \<le> 4 \<and> list_all (isDigitOf 16) g)"

definition isOctet :: "string \<Rightarrow> bool" where
  "isOctet d = (1 \<le> length d \<and> length d \<le> 3 \<and> list_all (isDigitOf 10) d \<and> digitsValue 10 d < 256)"

definition isQuad :: "string list \<Rightarrow> bool" where
  "isQuad q = (length q = 4 \<and> list_all isOctet q)"

fun wf_ipv6_text :: "ipv6_text \<Rightarrow> bool" where
  "wf_ipv6_text (Full gs) = (length gs = 8 \<and> list_all isHextet gs)"
| "wf_ipv6_text (Compressed bs as) =
     (length bs + length as \<le> 7 \<and> list_all isHextet bs \<and> list_all isHextet as)"
| "wf_ipv6_text (FullQuad gs q) = (length gs = 6 \<and> list_all isHextet gs \<and> isQuad q)"
| "wf_ipv6_text (CompressedQuad bs as q) =
     (length bs + length as \<le> 5 \<and> list_all isHextet bs \<and> list_all isHextet as \<and> isQuad q)"

fun render :: "ipv6_text \<Rightarrow> string" where
  "render (Full gs) = js_join '':'' gs"
| "render (Compressed bs as) = js_join '':'' bs @ ''::'' @ js_join '':'' as"
| "render (FullQuad gs q) = js_join '':'' (gs @ [js_join ''.'' q])"
| "render (CompressedQuad bs as q) = js_join '':'' bs @ ''::'' @ js_join '':'' (as @ [js_join ''.'' q])"

definition quadGroups :: "string list \<Rightarrow> nat list" where
  "quadGroups q =
     (case map (digitsValue 10) q of
        [a, b, c, d] \<Rightarrow> [a * 256 + b, c * 256 + d]
      | _ \<Rightarrow> [])"

fun groups :: "ipv6_text \<Rightarrow> nat list" where
  "groups (Full gs) = map (digitsValue 16) gs"
| "groups (Compressed bs as) =
     map (digitsValue 16) bs @ replicate (8 - length bs - length as) 0 @ map (digitsValue 16) as"
| "groups (FullQuad gs q) = map (digitsValue 16) gs @ quadGroups q"
| "groups (CompressedQuad bs as q) =
     map (digitsValue 16) bs @ replicate (6 - length bs - length as) 0 @ map (digitsValue 16) as
       @ quadGroups q"

definition top64 :: "ipv6_text \<Rightarrow> nat list" where
  "top64 t = take 4 (groups t)"

text \<open>
  \<open>parseIPv6\<close> has no case for a dotted quad: it counts it as one group. In the forms
  without \<open>::\<close> that only touches the last two groups. In the forms with \<open>::\<close> one zero
  group too many is put in the place of \<open>::\<close>, so the hexadecimal groups between \<open>::\<close> and
  the dotted quad move one place to the right; the last two of them lie outside the top
  64 bits in either place. \<open>readsTop64\<close> holds of the text forms in which nothing else
  moves: every form but the one with \<open>::\<close> and a dotted quad that has a non-zero group
  among the groups between the two, the last two apart.
\<close>

fun readsTop64 :: "ipv6_text \<Rightarrow> bool" where
  "readsTop64 (Full gs) = True"
| "readsTop64 (Compressed bs as) = True"
| "readsTop64 (FullQuad gs q) = True"
| "readsTop64 (CompressedQuad bs as q) =
     list_all (\<lambda>g. digitsValue 16 g = 0) (take (length as - 2) as)"

text \<open>A part of a colon-separated text: not empty, without a colon.\<close>

definition isPart :: "string \<Rightarrow> bool" where
  "isPart p = (p \<noteq> [] \<and> CHR '':'' \<notin> set p)"

section \<open>routes/github.js\<close>

subsection \<open>Upstream responses and replies to the client\<close>

text \<open>
  A response of \<open>node-fetch\<close>: the status, the headers (each name once, in lower case, as
  \<open>response.headers.entries()\<close> lists them) and the body. \<open>response.headers.get(name)\<close> is
  \<open>None\<close> for a header that is absent.
\<close>

record response =
  status :: nat
  rheaders :: "(string \<times> string) list"
  body :: string

definition headers_get :: "response \<Rightarrow> string \<Rightarrow> string option" where
  "headers_get r name = map_of (rheaders r) name"

text \<open>
  What the handler sends: the status, the headers it sets from the upstream response, the
  body (the fixed messages of the error replies are constructors), and whether the body
  is piped through (\<open>response.body.pipe(res)\<close>) or sent whole (\<open>res.send\<close>, \<open>res.json\<close>).
\<close>

datatype payload =
    Text string
  | TooManyRedirects
  | ContentTypeNotAllowed
  | FileTooLarge
  | ServerError
  | EmptyJson
  | InvalidRequestPath
  | AccessDenied

record reply =
  code :: nat
  sent_headers :: "(string \<times> string) list"
  content :: payload
  piped :: bool

definition blockedContentTypes :: "string list" where
  "blockedContentTypes = [''text/html'', ''application/xhtml+xml'', ''text/xml'', ''application/xml'']"

text \<open>\<open>(response.headers.get('content-type') || '').split(';')[0].toLowerCase()\<close>\<close>

definition baseType :: "response \<Rightarrow> string" where
  "baseType r =
     toLowerCase (hd (js_split CHR '';''
       (if truthy (headers_get r ''content-type'') then the (headers_get r ''content-type'') else [])))"

text \<open>The size check: \<open>contentLength\<close> is truthy and \<open>parseInt(contentLength, 10)\<close>
  is greater than \<open>config.server.fileSize\<close>; a comparison with \<open>NaN\<close> is false.\<close>

definition tooLarge :: "int \<Rightarrow> response \<Rightarrow> bool" where
  "tooLarge fileSize r =
     (truthy (headers_get r ''content-length'') \<and>
      numLt (fromInt fileSize) (parseInt (the (headers_get r ''content-length'')) 10))"

text \<open>\<open>realHost\<close>: \<open>X-Forwarded-Host\<close>, else \<open>Host\<close>, else the empty string; \<open>https://\<close> is
  put in front unless the value starts with a scheme.\<close>

definition realHost :: "request \<Rightarrow> string" where
  "realHost req =
     (let h = (if truthy (headers req ''x-forwarded-host'') then the (headers req ''x-forwarded-host'')
               else if truthy (headers req ''host'') then the (headers req ''host'')
               else [])
      in if \<not> startsWith h ''http://'' \<and> \<not> startsWith h ''https://'' then ''https://'' @ h else h)"

text \<open>The copy of the response headers, without the five names the loop skips.\<close>

definition copyResponseHeaders :: "response \<Rightarrow> (string \<times> string) list" where
  "copyResponseHeaders r =
     filter (\<lambda>kv. toLowerCase (fst kv) \<notin> set [''content-security-policy'', ''referrer-policy'',
                ''strict-transport-security'', ''transfer-encoding'', ''connection''])
       (rheaders r)"

subsection \<open>Rewriting the links of a script\<close>

text \<open>
  The two patterns are \<open>https?:\/\/HOST\/[^\s"']+\<close> with \<open>HOST\<close> the literal
  \<open>github.com\<close> or \<open>raw.githubusercontent.com\<close>. \<open>urlMatchLen host s\<close> is the length of
  the match that starts at the first character of \<open>s\<close>, if there is one: the scheme, the
  host, a slash and the longest run (at least one) of characters that are neither white
  space nor a quote.
\<close>

definition urlChar :: "char \<Rightarrow> bool" where
  "urlChar c = (\<not> isWhiteSpace c \<and> c \<noteq> CHR 0x22 \<and> c \<noteq> CHR 0x27)"

definition urlMatchLen :: "string \<Rightarrow> string \<Rightarrow> nat option" where
  "urlMatchLen host s =
     (let p = (if startsWith s (''https://'' @ host @ ''/'') then Some (length host + 9)
               else if startsWith s (''http://'' @ host @ ''/'') then Some (length host + 8)
               else None)
      in case p of
           None \<Rightarrow> None
         | Some n \<Rightarrow>
             (let run = takeWhile urlChar (drop n s)
              in if run = [] then None else Some (n + length run)))"

text \<open>
  \<open>body.replace(pattern, match => `${realHost}/${match}`)\<close> with a global pattern: the
  text is scanned from the left; a match is replaced and the scan goes on behind it.
\<close>

function replaceUrls :: "string \<Rightarrow> string \<Rightarrow> string \<Rightarrow> string" where
  "replaceUrls host base s =
     (case s of
        [] \<Rightarrow> []
      | c # cs \<Rightarrow>
          (case urlMatchLen host s of
             Some n \<Rightarrow> base @ ''/'' @ take n s @ replaceUrls host base (drop n s)
           | None \<Rightarrow> c # replaceUrls host base cs))"
  by pat_completeness auto
termination
  by (relation "measure (\<lambda>(host, base, s). length s)")
     (auto simp: urlMatchLen_def Let_def split: if_splits option.splits)

declare replaceUrls.simps [simp del]

definition rewriteScript :: "string \<Rightarrow> string \<Rightarrow> string" where
  "rewriteScript base s =
     replaceUrls ''raw.githubusercontent.com'' base (replaceUrls ''github.com'' base s)"

subsection \<open>\<open>proxyGitHubRequest\<close>\<close>

text \<open>
  Everything behind the redirect test, for the response of the last fetch: the content
  type gate, the size gate, then the script rewrite or the stream.
\<close>

definition finalResponse :: "int \<Rightarrow> request \<Rightarrow> string \<Rightarrow> response \<Rightarrow> reply" where
  "finalResponse fileSize req url r =
     (if reqMethod req = ''GET'' \<and> status r \<ge> 200 \<and> status r < 300 \<and>
         baseType r \<in> set blockedContentTypes
      then \<lparr>code = 403, sent_headers = [], content = ContentTypeNotAllowed, piped = False\<rparr>
      else if tooLarge fileSize r
      then \<lparr>code = 413, sent_headers = [], content = FileTooLarge, piped = False\<rparr>
      else
        (let responseHeaders = copyResponseHeaders r;
             lowercaseUrl = toLowerCase url
         in if endsWith lowercaseUrl ''.sh'' \<or> endsWith lowercaseUrl ''.ps1''
            then \<lparr>code = status r,
                  sent_headers = filter (\<lambda>kv. fst kv \<noteq> ''content-length'') responseHeaders,
                  content = Text (rewriteScript (realHost req) (body r)),
                  piped = False\<rparr>
            else \<lparr>code = status r, sent_headers = responseHeaders,
                  content = Text (body r), piped = True\<rparr>))"

text \<open>
  The walk. \<open>fetch n url\<close> is what the upstream answers to the fetch made with
  \<open>redirectCount = n\<close> (with the method, headers and body of the request, which do not
  change along the walk); \<open>None\<close> stands for a fetch that throws, which the \<open>catch\<close>
  turns into the 500 reply. The second component lists the URLs fetched, in order.
\<close>

function proxyGitHubRequest ::
  "int \<Rightarrow> request \<Rightarrow> (nat \<Rightarrow> string \<Rightarrow> response option) \<Rightarrow> string \<Rightarrow> nat \<Rightarrow> reply \<times> string list" where
  "proxyGitHubRequest fileSize req fetch url redirectCount =
     (if redirectCount > 20
      then (\<lparr>code = 508, sent_headers = [], content = TooManyRedirects, piped = False\<rparr>, [])
      else
        (case fetch redirectCount url of
           None \<Rightarrow> (\<lparr>code = 500, sent_headers = [], content = ServerError, piped = False\<rparr>, [url])
         | Some r \<Rightarrow>
             if truthy (headers_get r ''location'') \<and> status r \<ge> 300 \<and> status r < 400
             then apsnd ((#) url)
                    (proxyGitHubRequest fileSize req fetch (the (headers_get r ''location''))
                       (redirectCount + 1))
             else (finalResponse fileSize req url r, [url])))"
  by pat_completeness auto
termination
  by (relation "measure (\<lambda>(fileSize, req, fetch, url, redirectCount). 21 - redirectCount)") auto

declare proxyGitHubRequest.simps [simp del]

subsection \<open>The words of the specification on the script rewrite\<close>

text \<open>
  For comparison with the code: the proxy base of the specification takes its scheme
  from \<open>X-Forwarded-Proto\<close> (default \<open>https\<close>) and its host from \<open>X-Forwarded-Host\<close> or
  \<open>Host\<close>; its patterns end in \<open>\S+\<close>; and its test for a script looks at the path of
  the request URL, that is the URL without its query string.
\<close>

definition spec_proxyBase :: "request \<Rightarrow> string" where
  "spec_proxyBase req =
     (if truthy (headers req ''x-forwarded-proto'') then the (headers req ''x-forwarded-proto'') else ''https'')
     @ ''://'' @
     (if truthy (headers req ''x-forwarded-host'') then the (headers req ''x-forwarded-host'')
      else if truthy (headers req ''host'') then the (headers req ''host'') else [])"

definition spec_urlMatchLen :: "string \<Rightarrow> string \<Rightarrow> nat option" where
  "spec_urlMatchLen host s =
     (let p = (if startsWith s (''https://'' @ host @ ''/'') then Some (length host + 9)
               else if startsWith s (''http://'' @ host @ ''/'') then Some (length host + 8)
               else None)
      in case p of
           None \<Rightarrow> None
         | Some n \<Rightarrow>
             (let run = takeWhile (\<lambda>c. \<not> isWhiteSpace c) (drop n s)
              in if run = [] then None else Some (n + length run)))"

function spec_rewriteScript :: "string \<Rightarrow> string \<Rightarrow> string" where
  "spec_rewriteScript base s =
     (case s of
        [] \<Rightarrow> []
      | c # cs \<Rightarrow>
          (case (case spec_urlMatchLen ''github.com'' s of
                   Some n \<Rightarrow> Some n
                 | None \<Rightarrow> spec_urlMatchLen ''raw.githubusercontent.com'' s) of
             Some n \<Rightarrow> base @ ''/'' @ take n s @ spec_rewriteScript base (drop n s)
           | None \<Rightarrow> c # spec_rewriteScript base cs))"
  by pat_completeness auto
termination
  by (relation "measure (\<lambda>(base, s). length s)")
     (auto simp: spec_urlMatchLen_def Let_def split: if_splits option.splits)

declare spec_rewriteScript.simps [simp del]

definition spec_isScript :: "string \<Rightarrow> bool" where
  "spec_isScript url =
     (let p = toLowerCase (takeWhile (\<lambda>c. c \<noteq> CHR ''?'') url)
      in endsWith p ''.sh'' \<or> endsWith p ''.ps1'')"

section \<open>middleware/accessControl.js\<close>

text \<open>
  \<open>wildcardMatch(pattern, str)\<close> builds a regular expression from the pattern: every
  character with a meaning in a regular expression is escaped, then \<open>*\<close> becomes \<open>.*\<close>
  and \<open>?\<close> becomes \<open>.\<close>; the expression is anchored at both ends and ignores
  case. So \<open>*\<close> stands for any run of characters that are not line terminators,
  \<open>?\<close> for one such character, and every other character of the pattern for itself
  up to case.
\<close>

text \<open>The case folding of a regular expression with the flag \<open>i\<close>, on code units below
  256: a letter and its capital are the same (the sharp s, the y with diaeresis and the
  micro sign have no capital below 256 and match only themselves).\<close>

definition canonicalize :: "char \<Rightarrow> nat" where
  "canonicalize c =
     (let n = (of_char c :: nat)
      in if (97 \<le> n \<and> n \<le> 122) \<or> (224 \<le> n \<and> n \<le> 254 \<and> n \<noteq> 247) then n - 32 else n)"

fun wildcardMatch :: "string \<Rightarrow> string \<Rightarrow> bool" where
  "wildcardMatch [] s = (s = [])"
| "wildcardMatch (p # ps) [] = (p = CHR ''*'' \<and> wildcardMatch ps [])"
| "wildcardMatch (p # ps) (c # cs) =
     (if p = CHR ''*''
      then wildcardMatch ps (c # cs) \<or> (\<not> isLineTerminator c \<and> wildcardMatch (p # ps) cs)
      else if p = CHR ''?''
      then \<not> isLineTerminator c \<and> wildcardMatch ps cs
      else canonicalize p = canonicalize c \<and> wildcardMatch ps cs)"

definition matchesPattern :: "string \<Rightarrow> string list \<Rightarrow> bool" where
  "matchesPattern repoPath patterns = list_ex (\<lambda>pattern. wildcardMatch pattern repoPath) patterns"

text \<open>The part of the configuration the registry proxy reads.\<close>

record registry =
  upstream :: string
  authHost :: string
  authType :: string
  enabled :: bool

record config =
  registries :: "(string \<times> registry) list"
  accessWhiteList :: "string list"
  accessBlackList :: "string list"

text \<open>\<open>checkDockerAccess\<close>: \<open>None\<close> is \<open>allowed: true\<close>; a refusal carries its reason.\<close>

datatype denial = NotInWhiteList | InBlackList

definition checkDockerAccess :: "config \<Rightarrow> string \<Rightarrow> denial option" where
  "checkDockerAccess cfg imageName =
     (if accessWhiteList cfg \<noteq> [] \<and> \<not> matchesPattern imageName (accessWhiteList cfg)
      then Some NotInWhiteList
      else if accessBlackList cfg \<noteq> [] \<and> matchesPattern imageName (accessBlackList cfg)
      then Some InBlackList
      else None)"

section \<open>routes/docker.js\<close>

definition DOCKER_HUB_REGISTRY :: string where
  "DOCKER_HUB_REGISTRY = ''registry-1.docker.io''"

definition DOCKER_HUB_AUTH :: string where
  "DOCKER_HUB_AUTH = ''auth.docker.io''"

subsection \<open>Classifying the path\<close>

text \<open>
  \<open>detectRegistryDomain\<close>: the first configured key \<open>domain\<close>, in the order of
  \<open>Object.keys\<close>, such that the path starts with \<open>domain/\<close> or \<open>/domain/\<close>. The prefix is
  then removed by \<open>path.replace(new RegExp(`^/?${domain}/`), '')\<close>, an expression built
  from the key. For a key without a character of the regular-expression syntax other
  than the dot, the expression reads the key character by character, a dot standing for
  any character that is not a line terminator; the optional slash in front is taken if
  the rest matches behind it, and left out otherwise. A key that holds another syntax
  character (one of \<open>\ ^ $ * + ? ( ) [ ] { } |\<close>) is read as an expression of its own, or
  raises a \<open>SyntaxError\<close>; the model does not follow that case and returns \<open>None\<close> when a
  request reaches it.
\<close>

definition regexSyntaxChar :: "char \<Rightarrow> bool" where
  "regexSyntaxChar c =
     (c \<in> set [CHR 0x5C, CHR ''^'', CHR ''$'', CHR ''*'', CHR ''+'', CHR ''?'', CHR ''('', CHR '')'',
                CHR ''['', CHR '']'', CHR ''{'', CHR ''}'', CHR ''|''])"

fun matchesAt :: "string \<Rightarrow> string \<Rightarrow> bool" where
  "matchesAt [] s = True"
| "matchesAt (p # ps) [] = False"
| "matchesAt (p # ps) (c # cs) =
     ((if p = CHR ''.'' then \<not> isLineTerminator c else p = c) \<and> matchesAt ps cs)"

definition stripKey :: "string \<Rightarrow> string \<Rightarrow> string" where
  "stripKey domain p =
     (if take 1 p = ''/'' \<and> matchesAt (domain @ ''/'') (drop 1 p) then drop (length domain + 2) p
      else if matchesAt (domain @ ''/'') p then drop (length domain + 1) p
      else p)"

fun detectRegistryDomain :: "(string \<times> registry) list \<Rightarrow> string \<Rightarrow> (string option \<times> string) option" where
  "detectRegistryDomain [] p = Some (None, p)"
| "detectRegistryDomain ((domain, m) # rest) p =
     (if startsWith p (domain @ ''/'') \<or> startsWith p (''/'' @ domain @ ''/'')
      then (if list_ex regexSyntaxChar domain then None else Some (Some domain, stripKey domain p))
      else detectRegistryDomain rest p)"

definition getRegistryMapping :: "config \<Rightarrow> string \<Rightarrow> registry option" where
  "getRegistryMapping cfg domain = map_of (registries cfg) domain"

text \<open>
  The patterns \<open>^(.+?)\/manifests\/(.+)$\<close> and \<open>^(.+?)\/blobs\/(.+)$\<close>: the atom \<open>.\<close>
  matches no line terminator, so a text with one does not match; otherwise the first
  group is the shortest non-empty prefix that is followed by the keyword and a non-empty
  rest, and the second group is that rest.
\<close>

fun findKeyword :: "string \<Rightarrow> string \<Rightarrow> string \<Rightarrow> (string \<times> string) option" where
  "findKeyword kw pre [] = None"
| "findKeyword kw pre (c # cs) =
     (if pre \<noteq> [] \<and> startsWith (c # cs) kw \<and> length (c # cs) > length kw
      then Some (pre, drop (length kw) (c # cs))
      else findKeyword kw (pre @ [c]) cs)"

definition matchApi :: "string \<Rightarrow> string \<Rightarrow> (string \<times> string) option" where
  "matchApi kw s = (if list_ex isLineTerminator s then None else findKeyword kw [] s)"

text \<open>The pattern \<open>^(.+?)\/tags\/list$\<close>\<close>

definition matchTags :: "string \<Rightarrow> string option" where
  "matchTags s =
     (if \<not> list_ex isLineTerminator s \<and> endsWith s ''/tags/list'' \<and> length s > 10
      then Some (take (length s - 10) s) else None)"

record parsed_path =
  imageName :: string
  apiType :: string
  reference :: string
  registryDomain :: "string option"

text \<open>\<open>path.replace(/^\/v2\/?/, '')\<close>\<close>

definition stripV2 :: "string \<Rightarrow> string" where
  "stripV2 p = (if startsWith p ''/v2/'' then drop 4 p else if startsWith p ''/v2'' then drop 3 p else p)"

definition classifyPath :: "string option \<Rightarrow> string \<Rightarrow> parsed_path" where
  "classifyPath domain cleanPath =
     (case matchApi ''/manifests/'' cleanPath of
        Some (img, ref) \<Rightarrow>
          \<lparr>imageName = img, apiType = ''manifests'', reference = ref, registryDomain = domain\<rparr>
      | None \<Rightarrow>
          (case matchApi ''/blobs/'' cleanPath of
             Some (img, ref) \<Rightarrow>
               \<lparr>imageName = img, apiType = ''blobs'', reference = ref, registryDomain = domain\<rparr>
           | None \<Rightarrow>
               (case matchTags cleanPath of
                  Some img \<Rightarrow>
                    \<lparr>imageName = img, apiType = ''tags'', reference = [], registryDomain = domain\<rparr>
                | None \<Rightarrow>
                    \<lparr>imageName = cleanPath, apiType = [], reference = [], registryDomain = domain\<rparr>)))"

text \<open>\<open>parseRegistryPath\<close>; \<open>None\<close> where \<open>detectRegistryDomain\<close> is.\<close>

definition parseRegistryPath :: "config \<Rightarrow> string \<Rightarrow> parsed_path option" where
  "parseRegistryPath cfg p =
     (case detectRegistryDomain (registries cfg) (stripV2 p) of
        None \<Rightarrow> None
      | Some (domain, remaining) \<Rightarrow>
          Some (classifyPath domain (if truthy domain then remaining else stripV2 p)))"

subsection \<open>The token\<close>

text \<open>
  \<open>encodeURIComponent\<close> on code units below 256: letters, digits and \<open>-_.!~*'()\<close> stay;
  every other character becomes the bytes of its UTF-8 form, each as \<open>%\<close> and two
  capital hexadecimal digits.
\<close>

definition upperHexDigit :: "nat \<Rightarrow> char" where
  "upperHexDigit d = ''0123456789ABCDEF'' ! d"

definition percentByte :: "nat \<Rightarrow> string" where
  "percentByte b = [CHR ''%'', upperHexDigit (b div 16), upperHexDigit (b mod 16)]"

definition uriUnreserved :: "char \<Rightarrow> bool" where
  "uriUnreserved c =
     (let n = (of_char c :: nat)
      in (48 \<le> n \<and> n \<le> 57) \<or> (65 \<le> n \<and> n \<le> 90) \<or> (97 \<le> n \<and> n \<le> 122) \<or>
         c \<in> set [CHR ''-'', CHR ''_'', CHR ''.'', CHR ''!'', CHR ''~'', CHR ''*'', CHR 0x27, CHR ''('', CHR '')''])"

definition encodeURIComponent :: "string \<Rightarrow> string" where
  "encodeURIComponent s =
     concat (map (\<lambda>c. let n = (of_char c :: nat)
                       in if uriUnreserved c then [c]
                          else if n < 128 then percentByte n
                          else percentByte (192 + n div 64) @ percentByte (128 + n mod 64)) s)"

text \<open>
  The URL \<open>getAuthToken\<close> fetches on a cache miss; \<open>None\<close> is the anonymous dialect,
  which returns \<open>null\<close> without a fetch.
\<close>

definition authUrlFor :: "config \<Rightarrow> string \<Rightarrow> string option \<Rightarrow> string option" where
  "authUrlFor cfg scope domain =
     (case (if truthy domain then getRegistryMapping cfg (the domain) else None) of
        Some mapping \<Rightarrow>
          if authType mapping = ''github'' then Some (''https://ghcr.io/token?scope='' @ encodeURIComponent scope)
          else if authType mapping = ''google'' then Some (''https://gcr.io/v2/token?scope='' @ encodeURIComponent scope)
          else if authType mapping = ''quay'' then Some (''https://quay.io/v2/auth?scope='' @ encodeURIComponent scope)
          else if authType mapping = ''anonymous'' then None
          else Some (''https://'' @ authHost mapping @ ''?scope='' @ encodeURIComponent scope)
      | None \<Rightarrow>
          Some (''https://'' @ DOCKER_HUB_AUTH @ ''/token?service=registry.docker.io&scope=''
                @ encodeURIComponent scope))"

text \<open>
  \<open>getAuthToken\<close> on the token cache. \<open>authFetch url\<close> is the token that the answer of
  the auth server to \<open>url\<close> carries (\<open>data.token || data.access_token\<close>), \<open>None\<close> when the
  fetch throws, the answer is not \<open>ok\<close> or carries no token. The result is the token
  (\<open>None\<close> for \<open>null\<close>), the cache, and the URL fetched, if one was.
\<close>

record token_result =
  token :: "string option"
  cacheAfter :: "(string, string) Cache"
  authFetched :: "string option"

definition getAuthToken ::
  "config \<Rightarrow> (string \<Rightarrow> string option) \<Rightarrow> int \<Rightarrow> string \<Rightarrow> string option \<Rightarrow> (string, string) Cache \<Rightarrow> token_result" where
  "getAuthToken cfg authFetch now scope domain tokenCache =
     (let cacheKey = ''token:'' @ (if truthy domain then the domain else ''docker'') @ '':'' @ scope;
          (cached, cache1) = cache_get cacheKey now tokenCache
      in if truthy cached then \<lparr>token = cached, cacheAfter = cache1, authFetched = None\<rparr>
         else (case authUrlFor cfg scope domain of
                 None \<Rightarrow> \<lparr>token = None, cacheAfter = cache1, authFetched = None\<rparr>
               | Some authUrl \<Rightarrow>
                   (if truthy (authFetch authUrl)
                    then \<lparr>token = authFetch authUrl,
                          cacheAfter = cache_set cacheKey (the (authFetch authUrl)) (Some (15 * 60 * 1000)) now cache1,
                          authFetched = Some authUrl\<rparr>
                    else \<lparr>token = None, cacheAfter = cache1, authFetched = Some authUrl\<rparr>)))"

subsection \<open>The upstream URL\<close>

definition buildUpstreamURL :: "config \<Rightarrow> string option \<Rightarrow> string \<Rightarrow> string \<Rightarrow> string \<Rightarrow> string" where
  "buildUpstreamURL cfg domain img api ref =
     (let host = (case (if truthy domain then getRegistryMapping cfg (the domain) else None) of
                    Some mapping \<Rightarrow> upstream mapping
                  | None \<Rightarrow> DOCKER_HUB_REGISTRY);
          img' = (if \<not> truthy domain \<and> CHR ''/'' \<notin> set img then ''library/'' @ img else img);
          url = ''https://'' @ host @ ''/v2/'' @ img'
      in if api = ''manifests'' then url @ ''/manifests/'' @ ref
         else if api = ''blobs'' then url @ ''/blobs/'' @ ref
         else if api = ''tags'' then url @ ''/tags/list''
         else url)"

subsection \<open>Rewriting \<open>WWW-Authenticate\<close>\<close>

text \<open>
  The pattern \<open>realm="[^"]+"\<close> at the start of a text: the length of the match.
\<close>

definition realmMatchLen :: "string \<Rightarrow> nat option" where
  "realmMatchLen s =
     (if startsWith s (''realm='' @ [CHR 0x22])
      then (let run = takeWhile (\<lambda>c. c \<noteq> CHR 0x22) (drop 7 s)
            in if run \<noteq> [] \<and> take 1 (drop (7 + length run) s) = [CHR 0x22]
               then Some (7 + length run + 1) else None)
      else None)"

text \<open>
  The replacement text of \<open>String.prototype.replace\<close> when it is a string and the
  pattern has no groups: \<open>$$\<close> is a dollar sign, \<open>$&\<close> the match, \<open>$`\<close> the text
  before it, \<open>$'\<close> the text behind it; every other character stands for itself.
\<close>

fun expandReplacement :: "string \<Rightarrow> string \<Rightarrow> string \<Rightarrow> string \<Rightarrow> string" where
  "expandReplacement matched bef aft [] = []"
| "expandReplacement matched bef aft [c] = [c]"
| "expandReplacement matched bef aft (c # d # t) =
     (if c = CHR ''$'' \<and> d = CHR ''$'' then CHR ''$'' # expandReplacement matched bef aft t
      else if c = CHR ''$'' \<and> d = CHR ''&'' then matched @ expandReplacement matched bef aft t
      else if c = CHR ''$'' \<and> d = CHR 0x60 then bef @ expandReplacement matched bef aft t
      else if c = CHR ''$'' \<and> d = CHR 0x27 then aft @ expandReplacement matched bef aft t
      else c # expandReplacement matched bef aft (d # t))"

text \<open>\<open>wwwAuth.replace(/realm="[^"]+"/, replacement)\<close>: the first match from the left
  is replaced; \<open>bef\<close> is the text already passed.\<close>

fun replaceRealm :: "string \<Rightarrow> string \<Rightarrow> string \<Rightarrow> string" where
  "replaceRealm replacement bef [] = bef"
| "replaceRealm replacement bef (c # cs) =
     (case realmMatchLen (c # cs) of
        Some n \<Rightarrow>
          bef @ expandReplacement (take n (c # cs)) bef (drop n (c # cs)) replacement @ drop n (c # cs)
      | None \<Rightarrow> replaceRealm replacement (bef @ [c]) cs)"

text \<open>\<open>req.headers['x-forwarded-host'] || req.headers.host || ''\<close> and
  \<open>req.headers['x-forwarded-proto'] || 'https'\<close>\<close>

definition proxyHost :: "request \<Rightarrow> string" where
  "proxyHost req =
     (if truthy (headers req ''x-forwarded-host'') then the (headers req ''x-forwarded-host'')
      else if truthy (headers req ''host'') then the (headers req ''host'')
      else [])"

definition scheme :: "request \<Rightarrow> string" where
  "scheme req =
     (if truthy (headers req ''x-forwarded-proto'') then the (headers req ''x-forwarded-proto'')
      else ''https'')"

definition rewriteWwwAuth :: "request \<Rightarrow> string \<Rightarrow> string" where
  "rewriteWwwAuth req wwwAuth =
     replaceRealm (''realm='' @ [CHR 0x22] @ scheme req @ ''://'' @ proxyHost req @ ''/token'' @ [CHR 0x22])
       [] wwwAuth"

subsection \<open>\<open>proxyDockerRegistry\<close>\<close>

text \<open>
  One run of the handler: the reply, the token request it made (the scope and the
  registry passed to \<open>getAuthToken\<close>, with the result), and the upstream fetch (the URL
  and the request headers). \<open>fetch url hs\<close> is the answer of the upstream registry to the
  request with the method of the client, after its redirects; \<open>None\<close> is a fetch that
  throws.
\<close>

text \<open>
  The reply made from the upstream response: its status, its headers without
  \<open>transfer-encoding\<close>, \<open>connection\<close> and \<open>www-authenticate\<close>, then the rewritten
  \<open>www-authenticate\<close> if the upstream sent one, and its body piped through.
\<close>

definition relayResponse :: "request \<Rightarrow> response \<Rightarrow> reply" where
  "relayResponse req r =
     (let responseHeaders =
            filter (\<lambda>kv. toLowerCase (fst kv) \<notin>
                           set [''transfer-encoding'', ''connection'', ''www-authenticate''])
              (rheaders r);
          responseHeaders' =
            (if truthy (headers_get r ''www-authenticate'')
             then responseHeaders @
                  [(''www-authenticate'', rewriteWwwAuth req (the (headers_get r ''www-authenticate'')))]
             else responseHeaders)
      in \<lparr>code = status r, sent_headers = responseHeaders', content = Text (body r), piped = True\<rparr>)"

record registry_run =
  reply :: reply
  tokenScope :: "string option"
  tokenRun :: "token_result option"
  upstreamURL :: "string option"
  upstreamHeaders :: "(string \<times> string) list"

definition manifestAccept :: string where
  "manifestAccept = ''application/vnd.docker.distribution.manifest.v2+json, '' @
     ''application/vnd.docker.distribution.manifest.list.v2+json, '' @
     ''application/vnd.oci.image.manifest.v1+json, '' @
     ''application/vnd.oci.image.index.v1+json''"

definition noDispatch :: "reply \<Rightarrow> registry_run" where
  "noDispatch rp = \<lparr>reply = rp, tokenScope = None, tokenRun = None, upstreamURL = None, upstreamHeaders = []\<rparr>"

text \<open>\<open>proxyDockerRegistry\<close> from the parsed path on.\<close>

definition handleParsed ::
  "config \<Rightarrow> (string \<Rightarrow> string option) \<Rightarrow> (string \<Rightarrow> (string \<times> string) list \<Rightarrow> response option) \<Rightarrow>
   int \<Rightarrow> (string, string) Cache \<Rightarrow> request \<Rightarrow> parsed_path \<Rightarrow> registry_run" where
  "handleParsed cfg authFetch fetch now tokenCache req parsed =
     (let domain = registryDomain parsed
      in if imageName parsed = []
         then noDispatch \<lparr>code = 400, sent_headers = [], content = InvalidRequestPath, piped = False\<rparr>
         else
           (let fullImageName = (if truthy domain then the domain @ ''/'' @ imageName parsed
                                 else imageName parsed)
            in if checkDockerAccess cfg fullImageName \<noteq> None
               then noDispatch \<lparr>code = 403, sent_headers = [], content = AccessDenied, piped = False\<rparr>
               else
                 (let url = buildUpstreamURL cfg domain (imageName parsed) (apiType parsed) (reference parsed);
                      scope = ''repository:'' @
                              (if truthy domain then imageName parsed
                               else if CHR ''/'' \<in> set (imageName parsed) then imageName parsed
                               else ''library/'' @ imageName parsed) @ '':pull'';
                      t = getAuthToken cfg authFetch now scope domain tokenCache;
                      hs = (if truthy (token t) then [(''Authorization'', ''Bearer '' @ the (token t))] else [])
                           @ (if truthy (headers req ''accept'') then [(''Accept'', the (headers req ''accept''))]
                              else if apiType parsed = ''manifests'' then [(''Accept'', manifestAccept)]
                              else [])
                  in case fetch url hs of
                       None \<Rightarrow>
                         \<lparr>reply = \<lparr>code = 500, sent_headers = [], content = ServerError, piped = False\<rparr>,
                          tokenScope = Some scope, tokenRun = Some t, upstreamURL = Some url,
                          upstreamHeaders = hs\<rparr>
                     | Some r \<Rightarrow>
                         \<lparr>reply = relayResponse req r,
                          tokenScope = Some scope, tokenRun = Some t, upstreamURL = Some url,
                          upstreamHeaders = hs\<rparr>)))"

text \<open>\<open>proxyDockerRegistry\<close>; \<open>None\<close> where \<open>parseRegistryPath\<close> is.\<close>

definition proxyDockerRegistry ::
  "config \<Rightarrow> (string \<Rightarrow> string option) \<Rightarrow> (string \<Rightarrow> (string \<times> string) list \<Rightarrow> response option) \<Rightarrow>
   int \<Rightarrow> (string, string) Cache \<Rightarrow> request \<Rightarrow> registry_run option" where
  "proxyDockerRegistry cfg authFetch fetch now tokenCache req =
     (if path req = ''/v2/'' \<or> path req = ''/v2''
      then Some (noDispatch \<lparr>code = 200, sent_headers = [], content = EmptyJson, piped = False\<rparr>)
      else map_option (handleParsed cfg authFetch fetch now tokenCache req)
             (parseRegistryPath cfg (path req)))"

section \<open>Proofs: utils/cache.js\<close>

subsection \<open>The \<open>Map\<close> operations\<close>

lemma length_map_set_le: "length (map_set k v m) \<le> Suc (length m)"
  by (induction m) auto

lemma length_map_delete_le: "length (map_delete k m) \<le> length m"
  by (simp add: map_delete_def)

lemma map_delete_hd: "distinct (map fst (p # m)) \<Longrightarrow> map_delete (fst p) (p # m) = m"
proof -
  assume "distinct (map fst (p # m))"
  then have "\<forall>q \<in> set m. fst q \<noteq> fst p" by (auto simp: image_iff)
  then have "filter (\<lambda>q. fst q \<noteq> fst p) m = m" by (simp add: filter_id_conv)
  then show ?thesis by (simp add: map_delete_def)
qed

lemma map_fst_map_set:
  "map fst (map_set k v m) = (if map_has k m then map fst m else map fst m @ [k])"
proof (induction m)
  case Nil then show ?case by (simp add: map_has_def)
next
  case (Cons p m)
  obtain a b where p: "p = (a, b)" by (cases p)
  have h: "map_has k (p # m) = (a = k \<or> map_has k m)" by (auto simp: map_has_def p)
  show ?case unfolding h using Cons.IH by (simp add: p)
qed

lemma keys_map_set: "set (map fst (map_set k v m)) = insert k (set (map fst m))"
  unfolding map_fst_map_set by (auto simp: map_has_def)

lemma distinct_map_set: "distinct (map fst m) \<Longrightarrow> distinct (map fst (map_set k v m))"
proof (induction m)
  case Nil then show ?case by simp
next
  case (Cons p m)
  obtain a b where p: "p = (a, b)" by (cases p)
  show ?case
  proof (cases "a = k")
    case True with Cons.prems p show ?thesis by simp
  next
    case False
    have "a \<notin> set (map fst (map_set k v m))"
      using Cons.prems p False unfolding keys_map_set by simp
    with Cons p False show ?thesis by simp
  qed
qed

lemma distinct_map_delete: "distinct (map fst m) \<Longrightarrow> distinct (map fst (map_delete k m))"
  by (simp add: map_delete_def distinct_map_filter)

lemma maxSize_cache_set [simp]: "maxSize (cache_set k v ttl now c) = maxSize c"
  by (simp add: cache_set_def Let_def cleanup_def evictFirst_def split: list.splits)

lemma maxSize_apply_op [simp]: "maxSize (apply_op x c) = maxSize c"
  by (cases x) (simp_all add: cache_get_def cache_delete_def cache_clear_def split: option.splits)

lemma cache_size_cleanup: "cache_size (cleanup now c) \<le> cache_size c"
  by (simp add: cache_size_def cleanup_def)

lemma cache_size_evictFirst:
  "0 < cache_size c \<Longrightarrow> cache_size (evictFirst c) < cache_size c"
proof (cases "data c")
  case Nil 
  assume "0 < cache_size c"
  with Nil show ?thesis by (simp add: cache_size_def)
next
  case (Cons p m)
  have "int (length (filter (\<lambda>q. fst q \<noteq> fst p) m)) < 1 + int (length m)"
    using length_filter_le[of "\<lambda>q. fst q \<noteq> fst p" m] by linarith
  with Cons show ?thesis by (simp add: cache_size_def evictFirst_def map_delete_def)
qed

lemma cache_set_bounded:
  assumes "1 \<le> maxSize c" "cache_size c \<le> maxSize c"
  shows "cache_size (cache_set k v ttl now c) \<le> maxSize c"
proof -
  define c1 where "c1 = (if cache_size c \<ge> maxSize c then cleanup now c else c)"
  define c2 where "c2 = (if cache_size c1 \<ge> maxSize c1 then evictFirst c1 else c1)"
  define e where "e = \<lparr>val = v, expiresAt = now + (case ttl of None \<Rightarrow> defaultTTL c | Some t \<Rightarrow> t)\<rparr>"
  have m1: "maxSize c1 = maxSize c" by (simp add: c1_def cleanup_def)
  have s1: "cache_size c1 \<le> maxSize c"
    using assms cache_size_cleanup[of now c] by (simp add: c1_def)
  have s2: "cache_size c2 < maxSize c"
  proof (cases "cache_size c1 \<ge> maxSize c1")
    case True
    with assms m1 have "0 < cache_size c1" by simp
    from cache_size_evictFirst[OF this] s1 True show ?thesis by (simp add: c2_def)
  next
    case False then show ?thesis using m1 by (simp add: c2_def)
  qed
  have "cache_set k v ttl now c = c2\<lparr>data := map_set k e (data c2)\<rparr>"
    by (simp add: cache_set_def Let_def c1_def c2_def e_def)
  then have "cache_size (cache_set k v ttl now c) = int (length (map_set k e (data c2)))"
    by (simp add: cache_size_def)
  also have "\<dots> \<le> cache_size c2 + 1"
    using length_map_set_le[of k e "data c2"] by (simp add: cache_size_def)
  finally show ?thesis using s2 by simp
qed

lemma apply_op_bounded:
  assumes "1 \<le> maxSize c" "cache_size c \<le> maxSize c"
  shows "cache_size (apply_op x c) \<le> maxSize c"
proof (cases x)
  case (Get k now)
  have "int (length (map_delete k (data c))) \<le> maxSize c"
    using assms(2) length_map_delete_le[of k "data c"] by (simp add: cache_size_def)
  with Get assms(2) show ?thesis
    by (simp add: cache_get_def cache_size_def split: option.splits)
next
  case (Set k v ttl now)
  then show ?thesis using cache_set_bounded[OF assms] by simp
next
  case (Delete k)
  have "int (length (map_delete k (data c))) \<le> maxSize c"
    using assms(2) length_map_delete_le[of k "data c"] by (simp add: cache_size_def)
  with Delete show ?thesis by (simp add: cache_delete_def cache_size_def)
next
  case Clear
  then show ?thesis using assms by (simp add: cache_clear_def cache_size_def)
qed

lemma run_ops_bounded:
  "1 \<le> maxSize c \<Longrightarrow> cache_size c \<le> maxSize c \<Longrightarrow>
   cache_size (run_ops ops c) \<le> maxSize c \<and> maxSize (run_ops ops c) = maxSize c"
proof (induction ops arbitrary: c)
  case Nil then show ?case by simp
next
  case (Cons x xs)
  have "cache_size (apply_op x c) \<le> maxSize (apply_op x c)"
    using apply_op_bounded[OF Cons.prems] by simp
  with Cons.IH[of "apply_op x c"] Cons.prems show ?case by simp
qed

lemma wf_cleanup: "wf_cache c \<Longrightarrow> wf_cache (cleanup now c)"
  by (simp add: wf_cache_def cleanup_def distinct_map_filter)

lemma wf_evictFirst: "wf_cache c \<Longrightarrow> wf_cache (evictFirst c)"
  by (cases "data c") (simp_all add: wf_cache_def evictFirst_def distinct_map_delete)

lemma wf_cache_set: "wf_cache c \<Longrightarrow> wf_cache (cache_set k v ttl now c)"
proof -
  assume wf: "wf_cache c"
  define c1 where "c1 = (if cache_size c \<ge> maxSize c then cleanup now c else c)"
  define c2 where "c2 = (if cache_size c1 \<ge> maxSize c1 then evictFirst c1 else c1)"
  have "wf_cache c1" using wf by (simp add: c1_def wf_cleanup)
  then have "wf_cache c2" by (simp add: c2_def wf_evictFirst)
  then have d: "distinct (map fst (map_set k e (data c2)))" for e
    by (simp add: wf_cache_def distinct_map_set)
  define e where "e = \<lparr>val = v, expiresAt = now + (case ttl of None \<Rightarrow> defaultTTL c | Some t \<Rightarrow> t)\<rparr>"
  have "cache_set k v ttl now c = c2\<lparr>data := map_set k e (data c2)\<rparr>"
    by (simp add: cache_set_def Let_def c1_def c2_def e_def)
  then show ?thesis using d[of e] by (simp add: wf_cache_def)
qed

lemma wf_apply_op: "wf_cache c \<Longrightarrow> wf_cache (apply_op x c)"
proof (cases x)
  case (Set k v ttl now)
  assume "wf_cache c" with Set show ?thesis by (simp add: wf_cache_set)
next
  case (Get k now)
  assume "wf_cache c" with Get show ?thesis
    by (simp add: wf_cache_def cache_get_def distinct_map_delete split: option.splits)
next
  case (Delete k)
  assume "wf_cache c" with Delete show ?thesis
    by (simp add: wf_cache_def cache_delete_def distinct_map_delete)
next
  case Clear
  then show ?thesis by (simp add: wf_cache_def cache_clear_def)
qed

lemma wf_run_ops: "wf_cache c \<Longrightarrow> wf_cache (run_ops ops c)"
  by (induction ops arbitrary: c) (simp_all add: wf_apply_op)

lemma map_of_map_set_other: "k' \<noteq> k \<Longrightarrow> map_of (map_set k v m) k' = map_of m k'"
  by (induction m) auto

lemma length_map_set: "length (map_set k v m) = (if map_has k m then length m else Suc (length m))"
  using arg_cong[OF map_fst_map_set[of k v m], of length] by (simp split: if_splits)

lemma map_has_map_set: "map_has k' (map_set k v m) = (k' = k \<or> map_has k' m)"
  using keys_map_set[of k v m] by (auto simp: map_has_def)

lemma cache_set_at_capacity:
  assumes wf: "wf_cache c" and full: "maxSize c \<le> cache_size c"
  shows "data (cache_set key v ttl now c) =
      map_set key \<lparr>val = v, expiresAt = now + (case ttl of None \<Rightarrow> defaultTTL c | Some t \<Rightarrow> t)\<rparr>
        (let live = filter (\<lambda>p. \<not> now > expiresAt (snd p)) (data c)
         in if maxSize c \<le> int (length live) then tl live else live)"
proof -
  define live where "live = filter (\<lambda>p. \<not> now > expiresAt (snd p)) (data c)"
  have c1: "(if cache_size c \<ge> maxSize c then cleanup now c else c) = c\<lparr>data := live\<rparr>"
    using full by (simp add: cleanup_def live_def)
  have dl: "distinct (map fst live)"
    using wf by (simp add: wf_cache_def live_def distinct_map_filter)
  have ev: "data (evictFirst (c\<lparr>data := live\<rparr>)) = tl live"
  proof (cases live)
    case Nil then show ?thesis by (simp add: evictFirst_def)
  next
    case (Cons p m)
    with dl map_delete_hd[of p m] show ?thesis by (simp add: evictFirst_def)
  qed
  show ?thesis
    unfolding cache_set_def Let_def c1 live_def[symmetric]
    using ev by (simp add: cache_size_def)
qed

subsection \<open>The size bound\<close>

text \<open>
  Claim C6. A cache built with capacity \<open>maxSize \<ge> 1\<close> holds at most \<open>maxSize\<close> entries
  after every sequence of \<open>get\<close>, \<open>set\<close>, \<open>delete\<close> and \<open>clear\<close> calls (at any
  clock readings) that starts from the empty cache. A \<open>set\<close> on a cache that is at
  capacity first drops the expired entries; if that still leaves \<open>maxSize\<close> entries it
  removes the head of the iteration order (the entry inserted earliest among those
  present); only then it stores the new entry.
\<close>

theorem cache_size_never_exceeds_maxSize: 
  fixes ops :: "('k, 'v) cache_op list"
  assumes "1 \<le> m"
  shows "cache_size (run_ops ops (newCache m t)) \<le> m \<and>
     (cache_size (run_ops ops (newCache m t)) = m \<longrightarrow>
        data (cache_set key v ttl now (run_ops ops (newCache m t))) =
          map_set key \<lparr>val = v, expiresAt = now + (case ttl of None \<Rightarrow> t | Some t' \<Rightarrow> t')\<rparr>
            (let live = filter (\<lambda>p. \<not> now > expiresAt (snd p)) (data (run_ops ops (newCache m t)))
             in if m \<le> int (length live) then tl live else live))"
proof -
  let ?c0 = "newCache m t :: ('k, 'v) Cache"
  have c0: "1 \<le> maxSize ?c0" "cache_size ?c0 \<le> maxSize ?c0" "wf_cache ?c0"
    using assms by (simp_all add: newCache_def cache_size_def wf_cache_def)
  have b: "cache_size (run_ops ops ?c0) \<le> m" "maxSize (run_ops ops ?c0) = m"
    using run_ops_bounded[OF c0(1,2), of ops] by (simp_all add: newCache_def)
  have d: "defaultTTL (run_ops ops c) = defaultTTL c" for c :: "('k, 'v) Cache"
  proof (induction ops arbitrary: c)
    case Nil then show ?case by simp
  next
    case (Cons x xs)
    have "defaultTTL (apply_op x c) = defaultTTL c"
      by (cases x) (simp_all add: cache_get_def cache_set_def Let_def cleanup_def evictFirst_def
          cache_delete_def cache_clear_def split: option.splits list.splits)
    with Cons show ?case by simp
  qed
  have dt: "defaultTTL ?c0 = t" by (simp add: newCache_def)
  have wf: "wf_cache (run_ops ops ?c0)" by (rule wf_run_ops[OF c0(3)])
  show ?thesis
  proof (intro conjI impI)
    show "cache_size (run_ops ops ?c0) \<le> m" by (rule b(1))
  next
    assume "cache_size (run_ops ops ?c0) = m"
    then have "maxSize (run_ops ops ?c0) \<le> cache_size (run_ops ops ?c0)" using b(2) by simp
    from cache_set_at_capacity[OF wf this, of key v ttl now] show "data (cache_set key v ttl now (run_ops ops ?c0)) =
          map_set key \<lparr>val = v, expiresAt = now + (case ttl of None \<Rightarrow> t | Some t' \<Rightarrow> t')\<rparr>
            (let live = filter (\<lambda>p. \<not> now > expiresAt (snd p)) (data (run_ops ops ?c0))
             in if m \<le> int (length live) then tl live else live)"
      unfolding b(2) d dt by simp
  qed
qed

theorem cache_size_never_exceeds_maxSize_witness:
  "(1::int) \<le> 2 \<and>
   cache_size (run_ops [Set (1::nat) ''a'' None 0, Set 2 ''b'' (Some 5) 1, Set 3 ''c'' None 2] (newCache 2 10)) = 2 \<and>
   data (cache_set 4 ''d'' None 3 (run_ops [Set (1::nat) ''a'' None 0, Set 2 ''b'' (Some 5) 1, Set 3 ''c'' None 2] (newCache 2 10)))
     = [(3, \<lparr>val = ''c'', expiresAt = 12\<rparr>), (4, \<lparr>val = ''d'', expiresAt = 13\<rparr>)]"
  using cache_size_never_exceeds_maxSize
    [of 2 "[Set (1::nat) ''a'' None 0, Set 2 ''b'' (Some 5) 1, Set 3 ''c'' None 2]" 10 4 "''d''" None 3]
  by (simp add: newCache_def cache_set_def cache_size_def cleanup_def evictFirst_def map_delete_def Let_def)

subsection \<open>What a \<open>set\<close> does to the other entries\<close>

text \<open>
  Claim C10, as stated, says that overwriting a key that is present, on a cache that is
  at capacity with nothing expired, removes an unrelated oldest entry and shrinks the
  cache by one. At the input below the key written is itself the oldest one: the entry
  that is evicted is its own, it is stored again at the end of the iteration order,
  and the cache keeps its two entries.
\<close>

theorem cache_set_oldest_key_keeps_size:
  "wf_cache \<lparr>data = [(1::nat, \<lparr>val = ''a'', expiresAt = 100\<rparr>), (2, \<lparr>val = ''b'', expiresAt = 100\<rparr>)], maxSize = 2, defaultTTL = 10\<rparr> \<and>
   cache_size \<lparr>data = [(1::nat, \<lparr>val = ''a'', expiresAt = 100\<rparr>), (2, \<lparr>val = ''b'', expiresAt = 100\<rparr>)], maxSize = 2, defaultTTL = 10\<rparr> = 2 \<and>
   list_all (\<lambda>p. \<not> 0 > expiresAt (snd p)) [(1::nat, \<lparr>val = ''a'', expiresAt = 100\<rparr>), (2, \<lparr>val = ''b'', expiresAt = 100\<rparr>)] \<and>
   map_has 1 [(1::nat, \<lparr>val = ''a'', expiresAt = 100\<rparr>), (2, \<lparr>val = ''b'', expiresAt = 100\<rparr>)] \<and>
   data (cache_set 1 ''x'' None 0 \<lparr>data = [(1::nat, \<lparr>val = ''a'', expiresAt = 100\<rparr>), (2, \<lparr>val = ''b'', expiresAt = 100\<rparr>)], maxSize = 2, defaultTTL = 10\<rparr>)
     = [(2, \<lparr>val = ''b'', expiresAt = 100\<rparr>), (1, \<lparr>val = ''x'', expiresAt = 10\<rparr>)] \<and>
   cache_size (cache_set 1 ''x'' None 0 \<lparr>data = [(1::nat, \<lparr>val = ''a'', expiresAt = 100\<rparr>), (2, \<lparr>val = ''b'', expiresAt = 100\<rparr>)], maxSize = 2, defaultTTL = 10\<rparr>) = 2"
  by (simp add: wf_cache_def cache_set_def cache_size_def cleanup_def evictFirst_def map_delete_def map_has_def Let_def)

text \<open>
  Claim C10, amended. On a cache that holds exactly \<open>maxSize\<close> entries, none of them
  expired, \<open>set(k, v)\<close> removes the earliest-inserted entry whether or not \<open>k\<close> is
  present, and then stores \<open>k\<close>. When \<open>k\<close> is present and is not the earliest-inserted
  key, the unrelated earliest-inserted key is gone afterwards and the cache is one entry
  smaller. A \<open>set\<close> below capacity leaves the entry of every other key unchanged.
\<close>

theorem cache_set_frame:
  assumes wf: "wf_cache c"
  shows "(cache_size c = maxSize c \<and> (\<forall>p \<in> set (data c). \<not> now > expiresAt (snd p)) \<longrightarrow>
            data (cache_set k v ttl now c) =
              map_set k \<lparr>val = v, expiresAt = now + (case ttl of None \<Rightarrow> defaultTTL c | Some t \<Rightarrow> t)\<rparr> (tl (data c))
          \<and> (map_has k (tl (data c)) \<longrightarrow>
                cache_size (cache_set k v ttl now c) = cache_size c - 1
              \<and> \<not> map_has (fst (hd (data c))) (data (cache_set k v ttl now c))))
       \<and> (cache_size c < maxSize c \<longrightarrow>
            (\<forall>k'. k' \<noteq> k \<longrightarrow> map_of (data (cache_set k v ttl now c)) k' = map_of (data c) k'))"
proof (intro conjI impI allI)
  assume a: "cache_size c = maxSize c \<and> (\<forall>p \<in> set (data c). \<not> now > expiresAt (snd p))"
  then have live: "filter (\<lambda>p. \<not> now > expiresAt (snd p)) (data c) = data c" by (simp add: filter_id_conv)
  from a have full: "maxSize c \<le> cache_size c" by simp
  show eq: "data (cache_set k v ttl now c) =
              map_set k \<lparr>val = v, expiresAt = now + (case ttl of None \<Rightarrow> defaultTTL c | Some t \<Rightarrow> t)\<rparr> (tl (data c))"
    using cache_set_at_capacity[OF wf full, of k v ttl now] a unfolding live Let_def
    by (simp add: cache_size_def)
  assume has: "map_has k (tl (data c))"
  then obtain p m where pm: "data c = p # m" by (cases "data c") (auto simp: map_has_def)
  show "cache_size (cache_set k v ttl now c) = cache_size c - 1"
    using has unfolding cache_size_def eq length_map_set pm by simp
  have "fst p \<notin> set (map fst m)" using wf pm by (simp add: wf_cache_def)
  moreover have "fst p \<noteq> k" using has wf pm by (auto simp: map_has_def wf_cache_def)
  ultimately show "\<not> map_has (fst (hd (data c))) (data (cache_set k v ttl now c))"
    unfolding eq map_has_map_set pm by (simp add: map_has_def)
next
  fix k' assume "cache_size c < maxSize c" "k' \<noteq> k"
  then show "map_of (data (cache_set k v ttl now c)) k' = map_of (data c) k'"
    by (simp add: cache_set_def Let_def map_of_map_set_other)
qed

theorem cache_set_frame_witness:
  "wf_cache \<lparr>data = [(1::nat, \<lparr>val = ''a'', expiresAt = 100\<rparr>), (2, \<lparr>val = ''b'', expiresAt = 100\<rparr>)], maxSize = 2, defaultTTL = 10\<rparr> \<and>
   data (cache_set 2 ''x'' None 0 \<lparr>data = [(1::nat, \<lparr>val = ''a'', expiresAt = 100\<rparr>), (2, \<lparr>val = ''b'', expiresAt = 100\<rparr>)], maxSize = 2, defaultTTL = 10\<rparr>)
     = [(2, \<lparr>val = ''x'', expiresAt = 10\<rparr>)] \<and>
   cache_size (cache_set 2 ''x'' None 0 \<lparr>data = [(1::nat, \<lparr>val = ''a'', expiresAt = 100\<rparr>), (2, \<lparr>val = ''b'', expiresAt = 100\<rparr>)], maxSize = 2, defaultTTL = 10\<rparr>) = 1 \<and>
   map_of (data (cache_set 3 ''x'' None 0 \<lparr>data = [(1::nat, \<lparr>val = ''a'', expiresAt = 100\<rparr>), (2, \<lparr>val = ''b'', expiresAt = 100\<rparr>)], maxSize = 5, defaultTTL = 10\<rparr>)) 1
     = Some \<lparr>val = ''a'', expiresAt = 100\<rparr>"
  using cache_set_frame [of "\<lparr>data = [(1::nat, \<lparr>val = ''a'', expiresAt = 100\<rparr>), (2, \<lparr>val = ''b'', expiresAt = 100\<rparr>)], maxSize = 2, defaultTTL = 10\<rparr>" 0 2 "''x''" None]
    cache_set_frame [of "\<lparr>data = [(1::nat, \<lparr>val = ''a'', expiresAt = 100\<rparr>), (2, \<lparr>val = ''b'', expiresAt = 100\<rparr>)], maxSize = 5, defaultTTL = 10\<rparr>" 0 3 "''x''" None]
  by (simp add: wf_cache_def cache_size_def map_has_def)
section \<open>Proofs: rounding to a Number\<close>

subsection \<open>Powers of two\<close>

lemma pow2_pos [simp]: "0 < pow2 e"
  by (simp add: pow2_def zero_less_power_int)

lemma pow2_nonzero [simp]: "pow2 e \<noteq> 0"
  by (simp add: pow2_def)

lemma pow2_add: "pow2 (a + b) = pow2 a * pow2 b"
  by (simp add: pow2_def power_int_add)

lemma pow2_Suc: "pow2 (e + 1) = 2 * pow2 e"
  by (simp add: pow2_def power_int_add)

lemma pow2_0 [simp]: "pow2 0 = 1"
  by (simp add: pow2_def)

lemma pow2_mono: "a \<le> b \<Longrightarrow> pow2 a \<le> pow2 b"
  by (simp add: pow2_def power_int_increasing)

lemma pow2_strict_mono: "a < b \<Longrightarrow> pow2 a < pow2 b"
  by (simp add: pow2_def power_int_strict_increasing)

lemma pow2_less_imp: "pow2 a < pow2 b \<Longrightarrow> a < b"
  using pow2_mono[of b a] by (cases "a < b") auto

lemma pow2_nat: "0 \<le> e \<Longrightarrow> pow2 e = 2 ^ nat e"
  by (simp add: pow2_def power_int_def)

subsection \<open>The binary logarithm\<close>

lemma lgUp_bounds: "1 \<le> x \<Longrightarrow> 0 \<le> lgUp x \<and> pow2 (lgUp x) \<le> x \<and> x < pow2 (lgUp x + 1)"
proof (induction x rule: lgUp.induct)
  case (1 x)
  show ?case
  proof (cases "x < 2")
    case True
    with 1(2) show ?thesis by (simp add: lgUp.simps[of x] pow2_def)
  next
    case False
    then have "1 \<le> x / 2" by simp
    from 1(1)[OF False this] have ih: "0 \<le> lgUp (x / 2)" "pow2 (lgUp (x / 2)) \<le> x / 2"
      "x / 2 < pow2 (lgUp (x / 2) + 1)" by simp_all
    have e: "lgUp x = lgUp (x / 2) + 1" using False by (simp add: lgUp.simps[of x])
    have p: "pow2 (lgUp (x / 2) + 1) = 2 * pow2 (lgUp (x / 2))"
      "pow2 (lgUp (x / 2) + 1 + 1) = 2 * pow2 (lgUp (x / 2) + 1)" by (rule pow2_Suc)+
    from ih(1) have "0 \<le> lgUp (x / 2) + 1" by simp
    moreover from ih(2) have "pow2 (lgUp (x / 2) + 1) \<le> x" unfolding p(1) by simp
    moreover from ih(3) have "x < pow2 (lgUp (x / 2) + 1 + 1)" unfolding p(2) by simp
    ultimately show ?thesis unfolding e by blast
  qed
qed

lemma lgDown_bounds:
  "0 < x \<Longrightarrow> x < 1 \<Longrightarrow> pow2 (- lgDown x) \<le> x \<and> x < pow2 (- lgDown x + 1)"
proof (induction x rule: lgDown.induct)
  case (1 x)
  have e: "lgDown x = lgDown (2 * x) + 1" using 1(2,3) by (simp add: lgDown.simps[of x])
  have n: "\<not> (x \<le> 0 \<or> 1 \<le> x)" using 1(2,3) by simp
  show ?case
  proof (cases "2 * x < 1")
    case True
    from 1(1)[OF n _ True] 1(2)
    have ih: "pow2 (- lgDown (2 * x)) \<le> 2 * x" "2 * x < pow2 (- lgDown (2 * x) + 1)" by simp_all
    have p: "pow2 (- lgDown (2 * x)) = 2 * pow2 (- lgDown (2 * x) - 1)"
      using pow2_Suc[of "- lgDown (2 * x) - 1"] by simp
    have q: "pow2 (- lgDown (2 * x) + 1) = 2 * pow2 (- lgDown (2 * x))"
      by (rule pow2_Suc)
    show ?thesis unfolding e using ih p q by simp
  next
    case False
    then have "lgDown (2 * x) = 0" by (simp add: lgDown.simps[of "2 * x"])
    then have e1: "lgDown x = 1" using e by simp
    have "pow2 (- 1) = 1 / 2" by (simp add: pow2_def)
    with False 1(3) show ?thesis unfolding e1 by simp
  qed
qed

lemma floorLog2_bounds:
  assumes "0 < x"
  shows "pow2 (floorLog2 x) \<le> x" and "x < pow2 (floorLog2 x + 1)"
proof -
  have "pow2 (floorLog2 x) \<le> x \<and> x < pow2 (floorLog2 x + 1)"
  proof (cases "1 \<le> x")
    case True
    with lgUp_bounds[OF True] show ?thesis by (simp add: floorLog2_def)
  next
    case False
    with lgDown_bounds[of x] assms show ?thesis by (simp add: floorLog2_def)
  qed
  then show "pow2 (floorLog2 x) \<le> x" and "x < pow2 (floorLog2 x + 1)" by simp_all
qed

lemma floorLog2_unique:
  assumes "pow2 e \<le> x" "x < pow2 (e + 1)"
  shows "floorLog2 x = e"
proof -
  have x: "0 < x" using assms(1) pow2_pos[of e] by (rule less_le_trans[rotated])
  note b = floorLog2_bounds[OF x]
  have "pow2 e < pow2 (floorLog2 x + 1)" using assms(1) b(2) by simp
  then have 1: "e < floorLog2 x + 1" by (rule pow2_less_imp)
  have "pow2 (floorLog2 x) < pow2 (e + 1)" using assms(2) b(1) by simp
  then have 2: "floorLog2 x < e + 1" by (rule pow2_less_imp)
  from 1 2 show ?thesis by simp
qed

lemma floorLog2_mono:
  assumes "0 < x" "x \<le> y"
  shows "floorLog2 x \<le> floorLog2 y"
proof -
  have "pow2 (floorLog2 x) \<le> x" using floorLog2_bounds(1)[OF assms(1)] .
  also have "x \<le> y" by fact
  also have "y < pow2 (floorLog2 y + 1)" using floorLog2_bounds(2)[of y] assms by simp
  finally have "floorLog2 x < floorLog2 y + 1" by (rule pow2_less_imp)
  then show ?thesis by simp
qed

lemma floorLog2_less: "0 < x \<Longrightarrow> x < pow2 n \<Longrightarrow> floorLog2 x < n"
  using floorLog2_bounds(1)[of x] pow2_less_imp[of "floorLog2 x" n] by simp

subsection \<open>Rounding\<close>

lemma roundHalfEven_of_int [simp]: "roundHalfEven (of_int n) = n"
  by (simp add: roundHalfEven_def)

lemma roundHalfEven_bounds: "of_int \<lfloor>q\<rfloor> \<le> (of_int (roundHalfEven q) :: rat)" "roundHalfEven q \<le> \<lfloor>q\<rfloor> + 1"
  "\<lfloor>q\<rfloor> \<le> roundHalfEven q"
  by (simp_all add: roundHalfEven_def Let_def)

lemma roundHalfEven_mono:
  assumes "q \<le> r"
  shows "roundHalfEven q \<le> roundHalfEven r"
proof (cases "\<lfloor>q\<rfloor> = \<lfloor>r\<rfloor>")
  case True
  with assms show ?thesis by (auto simp: roundHalfEven_def Let_def)
next
  case False
  with floor_mono[OF assms] have "\<lfloor>q\<rfloor> + 1 \<le> \<lfloor>r\<rfloor>" by simp
  with roundHalfEven_bounds(2)[of q] roundHalfEven_bounds(3)[of r] show ?thesis by simp
qed

lemma roundHalfEven_ge: "of_int n \<le> q \<Longrightarrow> n \<le> roundHalfEven q"
  using roundHalfEven_mono[of "of_int n" q] by simp

lemma roundHalfEven_le: "q \<le> of_int n \<Longrightarrow> roundHalfEven q \<le> n"
  using roundHalfEven_mono[of q "of_int n"] by simp

lemma binade_mono: "0 < x \<Longrightarrow> x \<le> y \<Longrightarrow> binade x \<le> binade y"
  using floorLog2_mono[of x y] by (simp add: binade_def)

lemma roundMag_nonneg: "0 \<le> x \<Longrightarrow> 0 \<le> roundMag x"
proof -
  assume "0 \<le> x"
  then have "0 \<le> x / pow2 (binade x - 52)" by (rule divide_nonneg_pos) (rule pow2_pos)
  then have "of_int 0 \<le> x / pow2 (binade x - 52)" by simp
  then have "0 \<le> roundHalfEven (x / pow2 (binade x - 52))" by (rule roundHalfEven_ge)
  then have "(0::rat) \<le> of_int (roundHalfEven (x / pow2 (binade x - 52)))" by simp
  then show ?thesis unfolding roundMag_def
    by (rule mult_nonneg_nonneg) (rule less_imp_le[OF pow2_pos])
qed

lemma roundHalfEven_0 [simp]: "roundHalfEven 0 = 0"
  using roundHalfEven_of_int[of 0] by simp

lemma roundMag_0 [simp]: "roundMag 0 = 0"
  by (simp add: roundMag_def)

lemma roundMag_upper:
  assumes "0 < x"
  shows "roundMag x \<le> pow2 (binade x + 1)"
proof -
  define u where "u = pow2 (binade x - 52)"
  have u: "0 < u" by (simp add: u_def)
  have "x < pow2 (floorLog2 x + 1)" by (rule floorLog2_bounds(2)[OF assms])
  also have "\<dots> \<le> pow2 (binade x + 1)" by (rule pow2_mono) (simp add: binade_def)
  finally have "x < pow2 (binade x + 1)" .
  moreover have up: "pow2 (binade x + 1) = pow2 53 * u"
    unfolding u_def pow2_add[symmetric] by (rule arg_cong[where f = pow2]) simp
  ultimately have "x / u \<le> pow2 53" using u by (simp add: pos_divide_le_eq)
  also have "pow2 53 = of_int (2 ^ 53)" by (simp add: pow2_nat)
  finally have "roundHalfEven (x / u) \<le> 2 ^ 53" by (rule roundHalfEven_le)
  then have "(of_int (roundHalfEven (x / u)) :: rat) \<le> of_int (2 ^ 53)" by (simp only: of_int_le_iff)
  then have "of_int (roundHalfEven (x / u)) * u \<le> of_int (2 ^ 53) * u"
    using u by (simp only: mult_le_cancel_right_pos)
  also have "\<dots> = pow2 (binade x + 1)"
    unfolding up by (simp add: pow2_nat)
  finally show ?thesis by (simp add: roundMag_def u_def)
qed



lemma roundMag_lower:
  assumes "0 < x" "- 1022 < binade x"
  shows "pow2 (binade x) \<le> roundMag x"
proof -
  define u where "u = pow2 (binade x - 52)"
  have u: "0 < u" by (simp add: u_def)
  have b: "binade x = floorLog2 x" using assms(2) by (simp add: binade_def max_def split: if_splits)
  have up: "pow2 (binade x) = pow2 52 * u"
    unfolding u_def pow2_add[symmetric] by (rule arg_cong[where f = pow2]) simp
  have "pow2 (binade x) \<le> x" unfolding b by (rule floorLog2_bounds(1)[OF assms(1)])
  then have "pow2 52 \<le> x / u" unfolding up using u by (simp add: pos_le_divide_eq)
  moreover have "pow2 52 = of_int (2 ^ 52)" by (simp add: pow2_nat)
  ultimately have "of_int (2 ^ 52) \<le> x / u" by simp
  then have "2 ^ 52 \<le> roundHalfEven (x / u)" by (rule roundHalfEven_ge)
  then have "(of_int (2 ^ 52) :: rat) \<le> of_int (roundHalfEven (x / u))" by (simp only: of_int_le_iff)
  then have ineq: "of_int (2 ^ 52) * u \<le> of_int (roundHalfEven (x / u)) * u"
    using u by (simp only: mult_le_cancel_right_pos)
  have eq: "of_int (2 ^ 52) * u = pow2 (binade x)" unfolding up by (simp add: pow2_nat)
  from ineq[unfolded eq] show ?thesis unfolding roundMag_def u_def .
qed

lemma roundMag_mono:
  assumes "0 \<le> x" "x \<le> y"
  shows "roundMag x \<le> roundMag y"
proof (cases "x = 0")
  case True
  with assms roundMag_nonneg[of y] show ?thesis by simp
next
  case False
  with assms have x: "0 < x" and y: "0 < y" by simp_all
  from binade_mono[OF x assms(2)] consider "binade x = binade y" | "binade x < binade y" by linarith
  then show ?thesis
  proof cases
    case 1
    define u where "u = pow2 (binade x - 52)"
    have u: "0 < u" by (simp add: u_def)
    from assms(2) u have "x / u \<le> y / u" by (simp add: divide_right_mono)
    then have "roundHalfEven (x / u) \<le> roundHalfEven (y / u)" by (rule roundHalfEven_mono)
    then have "(of_int (roundHalfEven (x / u)) :: rat) \<le> of_int (roundHalfEven (y / u))"
      by (simp only: of_int_le_iff)
    then have "of_int (roundHalfEven (x / u)) * u \<le> of_int (roundHalfEven (y / u)) * u"
      using u by (simp only: mult_le_cancel_right_pos)
    then show ?thesis unfolding roundMag_def 1[symmetric] u_def .
  next
    case 2
    have "- 1022 \<le> binade x" by (simp add: binade_def)
    with 2 have "- 1022 < binade y" by simp
    from roundMag_lower[OF y this] have "pow2 (binade y) \<le> roundMag y" .
    moreover have "pow2 (binade x + 1) \<le> pow2 (binade y)" using 2 by (intro pow2_mono) simp
    moreover note roundMag_upper[OF x]
    ultimately show ?thesis by linarith
  qed
qed

lemma roundMag_of_nat:
  assumes "n < 2 ^ 53"
  shows "roundMag (of_nat n) = of_nat n"
proof (cases "n = 0")
  case True then show ?thesis by simp
next
  case False
  define x :: rat where "x = of_nat n"
  have x1: "1 \<le> x" using False by (simp add: x_def)
  then have x0: "0 < x" by simp
  have "x < of_nat (2 ^ 53)" unfolding x_def using assms by (simp only: of_nat_less_iff)
  also have "\<dots> = pow2 53" by (simp add: pow2_nat)
  finally have "floorLog2 x < 53" by (rule floorLog2_less[OF x0])
  moreover have "0 \<le> floorLog2 x" using lgUp_bounds[OF x1] x1 by (simp add: floorLog2_def)
  ultimately have b: "binade x = floorLog2 x" "0 \<le> 52 - binade x" by (simp_all add: binade_def)
  define k where "k = nat (52 - binade x)"
  have "pow2 (binade x - 52) * pow2 (52 - binade x) = 1"
    unfolding pow2_add[symmetric] by simp
  moreover have "pow2 (52 - binade x) = 2 ^ k" unfolding k_def using b(2) by (rule pow2_nat)
  ultimately have u: "pow2 (binade x - 52) = 1 / 2 ^ k" by (simp add: field_simps)
  have "x / pow2 (binade x - 52) = of_int (int n * 2 ^ k)" unfolding u by (simp add: x_def)
  then have "roundHalfEven (x / pow2 (binade x - 52)) = int n * 2 ^ k"
    by (simp only: roundHalfEven_of_int)
  then have "roundMag x = of_int (int n * 2 ^ k) * (1 / 2 ^ k)" unfolding roundMag_def u by simp
  then show ?thesis by (simp add: x_def)
qed

lemma roundMag_finite:
  assumes "0 \<le> x" "x \<le> l" "roundMag l = l" "floorLog2 l < 1024"
  shows "floorLog2 (roundMag x) < 1024"
proof (cases "roundMag x = 0")
  case True
  then show ?thesis by (simp add: floorLog2_def lgDown.simps)
next
  case False
  with roundMag_nonneg[OF assms(1)] have p: "0 < roundMag x" by simp
  have "roundMag x \<le> l" using roundMag_mono[OF assms(1,2)] assms(3) by simp
  with floorLog2_mono[OF p this] assms(4) show ?thesis by simp
qed

lemma roundMag_pow2:
  assumes "- 1022 \<le> e"
  shows "roundMag (pow2 e) = pow2 e"
proof -
  have f: "floorLog2 (pow2 e) = e"
    by (rule floorLog2_unique) (simp_all add: pow2_strict_mono)
  have b: "binade (pow2 e) = e" using assms by (simp add: binade_def f)
  have "pow2 e = pow2 52 * pow2 (e - 52)"
    unfolding pow2_add[symmetric] by (rule arg_cong[where f = pow2]) simp
  then have "pow2 e / pow2 (e - 52) = pow2 52" by (simp add: field_simps)
  also have "pow2 52 = of_int (2 ^ 52)" by (simp add: pow2_nat)
  finally have q: "pow2 e / pow2 (e - 52) = of_int (2 ^ 52)" .
  have "roundMag (pow2 e) = of_int (2 ^ 52) * pow2 (e - 52)"
    unfolding roundMag_def b q by (simp only: roundHalfEven_of_int)
  also have "\<dots> = pow2 52 * pow2 (e - 52)" by (simp add: pow2_nat)
  also have "\<dots> = pow2 e"
    unfolding pow2_add[symmetric] by (rule arg_cong[where f = pow2]) simp
  finally show ?thesis .
qed

lemma floorLog2_0 [simp]: "floorLog2 0 = 0"
  by (simp add: floorLog2_def lgDown.simps)

subsection \<open>Numbers that rounding produces\<close>

lemma toNumber_numAtLeast:
  assumes "roundMag p = p" "0 \<le> p" "p \<le> x"
  shows "numAtLeast p (toNumber False x)"
proof -
  have m: "p \<le> roundMag x" using roundMag_mono[OF assms(2,3)] assms(1) by simp
  show ?thesis
  proof (cases "1024 \<le> floorLog2 (roundMag x)")
    case True
    then show ?thesis by (simp add: toNumber_def numAtLeast_def)
  next
    case False
    with m show ?thesis by (simp add: toNumber_def numAtLeast_def Let_def)
  qed
qed

lemma toNumber_nonNegative: "0 \<le> x \<Longrightarrow> numAtLeast 0 (toNumber False x)"
  by (rule toNumber_numAtLeast) simp_all

lemma toNumber_bounded:
  assumes "0 \<le> x" "x \<le> l" "roundMag l = l" "floorLog2 l < 1024"
  shows "\<exists>m. toNumber False x = Num m \<and> 0 \<le> m \<and> m \<le> l"
proof -
  have f: "\<not> 1024 \<le> floorLog2 (roundMag x)" using roundMag_finite[OF assms] by simp
  have u: "roundMag x \<le> l" using roundMag_mono[OF assms(1,2)] assms(3) by simp
  have n: "0 \<le> roundMag x" by (rule roundMag_nonneg[OF assms(1)])
  have l: "0 \<le> l" using assms(1,2) by simp
  show ?thesis
  proof (cases "roundMag x = 0")
    case True
    with f l show ?thesis by (simp add: toNumber_def)
  next
    case False
    with f u n show ?thesis by (simp add: toNumber_def Let_def)
  qed
qed

lemma toNumber_of_nat:
  assumes "n < 2 ^ 53"
  shows "toNumber neg (of_nat n)
       = (if n = 0 then (if neg then NegZero else Num 0)
          else Num (if neg then - of_nat n else of_nat n))"
proof (cases "n = 0")
  case True
  then show ?thesis by (simp add: toNumber_def)
next
  case False
  then have x0: "(0::rat) < of_nat n" by simp
  have "(of_nat n :: rat) < of_nat (2 ^ 53)" using assms by (simp only: of_nat_less_iff)
  also have "\<dots> = pow2 53" by (simp add: pow2_nat)
  finally have "floorLog2 (of_nat n) < 53" by (rule floorLog2_less[OF x0])
  then have f: "\<not> 1024 \<le> floorLog2 (of_nat n)" by simp
  show ?thesis
    unfolding toNumber_def roundMag_of_nat[OF assms] Let_def using f False by simp
qed

lemma fromInt_elapsed:
  assumes "0 \<le> d" "d \<le> 2 ^ 54"
  shows "\<exists>e. fromInt d = Num e \<and> 0 \<le> e"
proof -
  have r: "roundMag (pow2 54) = pow2 54" by (rule roundMag_pow2) simp
  have f: "floorLog2 (pow2 54) < 1024"
    using floorLog2_unique[of 54 "pow2 54"] by (simp add: pow2_strict_mono)
  have "(of_int d :: rat) \<le> of_int (2 ^ 54)" using assms(2) by (simp only: of_int_le_iff)
  also have "\<dots> = pow2 54" by (simp add: pow2_nat)
  finally have u: "(of_int d :: rat) \<le> pow2 54" .
  have n: "(0::rat) \<le> of_int d" using assms(1) by simp
  from toNumber_bounded[OF n u r f] assms(1) show ?thesis
    by (auto simp: fromInt_def)
qed

subsection \<open>The operations on constructors\<close>

lemma numMul_Num_Num:
  "numMul (Num a) (Num b) = toNumber ((a < 0) \<noteq> (b < 0)) (\<bar>a\<bar> * \<bar>b\<bar>)"
  by (simp add: numMul_def magnitude_def isNegative_def)

lemma numMul_Infinity_Num:
  "numMul (Infinity s) (Num b) = (if b = 0 then NaN else Infinity (s \<noteq> (b < 0)))"
  by (simp add: numMul_def magnitude_def isNegative_def)

lemma numDiv_Num_Num:
  "numDiv (Num a) (Num b)
     = (if b = 0 then (if a = 0 then NaN else Infinity ((a < 0) \<noteq> (b < 0)))
        else toNumber ((a < 0) \<noteq> (b < 0)) (\<bar>a\<bar> / \<bar>b\<bar>))"
  by (simp add: numDiv_def magnitude_def isNegative_def)

lemma numDiv_Num_Infinity:
  "numDiv (Num a) (Infinity s) = (if (a < 0) \<noteq> s then NegZero else Num 0)"
  by (simp add: numDiv_def magnitude_def isNegative_def)

lemma numAdd_Num_Num:
  "numAdd (Num a) (Num b)
     = (if a + b = 0 then Num 0 else toNumber (a + b < 0) \<bar>a + b\<bar>)"
  by (auto simp: numAdd_def magnitude_def isNegative_def numval_def)

lemma numAdd_NegZero_Num:
  "numAdd NegZero (Num b) = (if b = 0 then Num 0 else toNumber (b < 0) \<bar>b\<bar>)"
  by (auto simp: numAdd_def magnitude_def isNegative_def numval_def)

lemma numAdd_finite_Infinity:
  "numAdd (Num a) (Infinity s) = Infinity s" "numAdd NegZero (Infinity s) = Infinity s"
  by (simp_all add: numAdd_def magnitude_def isNegative_def)

lemma numLt_Num_Num: "numLt (Num a) (Num b) = (a < b)"
  by (simp add: numLt_def magnitude_def numval_def)

lemma numLe_Num_Num: "numLe (Num a) (Num b) = (a \<le> b)"
  by (auto simp: numLe_def numLt_Num_Num)

lemma numLe_zero_cases:
  assumes "numLe (Num 0) t" "numLe t (Num l)"
  shows "t = NegZero \<or> (\<exists>r. t = Num r \<and> 0 \<le> r \<and> r \<le> l)"
  using assms by (cases t) (auto simp: numLe_def numLt_def magnitude_def numval_def isNegative_def)

lemma numAtLeast_cases:
  assumes "numAtLeast p v"
  obtains "v = Infinity False" | r where "v = Num r" "p \<le> r"
  using assms by (cases v) (auto simp: numAtLeast_def)

section \<open>Proofs: the token bucket\<close>

lemma periodMs_positive:
  assumes num: "isNumber (periodHours cfg)" and pos: "numLt (Num 0) (periodHours cfg)"
  shows "\<exists>p. 0 < p \<and> numAtLeast p (periodMs cfg)"
proof (cases "periodHours cfg")
  case NaN
  with pos show ?thesis by (simp add: numLt_def)
next
  case (Infinity s)
  with pos have "\<not> s" by (simp add: numLt_def magnitude_def isNegative_def)
  then have "periodMs cfg = Infinity False"
    by (simp add: periodMs_def Infinity numMul_Infinity_Num)
  then have "numAtLeast 1 (periodMs cfg)" by (simp add: numAtLeast_def)
  then show ?thesis by (intro exI[of _ 1]) simp
next
  case NegZero
  with pos show ?thesis by (simp add: numLt_def magnitude_def numval_def)
next
  case (Num p)
  with pos have p: "0 < p" by (simp add: numLt_Num_Num)
  from num Num p have r: "roundMag p = p" by (simp add: isNumber_def)
  have a: "numMul (Num p) (Num 3600) = toNumber False (p * 3600)"
    using p by (simp add: numMul_Num_Num)
  have "numAtLeast p (toNumber False (p * 3600))"
    by (rule toNumber_numAtLeast[OF r]) (use p in simp_all)
  then have "numAtLeast p (numMul (toNumber False (p * 3600)) (Num 1000))"
  proof (cases rule: numAtLeast_cases)
    case 1
    then show ?thesis by (simp add: numMul_Infinity_Num numAtLeast_def)
  next
    case (2 m)
    with p have m: "0 < m" by simp
    have "numAtLeast p (toNumber False (m * 1000))"
      by (rule toNumber_numAtLeast[OF r]) (use p 2(2) m in simp_all)
    with 2(1) m show ?thesis by (simp add: numMul_Num_Num)
  qed
  then have "numAtLeast p (periodMs cfg)" by (simp add: periodMs_def Num a)
  with p show ?thesis by blast
qed

lemma refillAmount_nonNegative:
  assumes e: "0 \<le> e" and p: "0 < p" "numAtLeast p pm" and l: "0 < l"
  shows "numAtLeast 0 (numMul (numDiv (Num e) pm) (Num l))"
proof -
  have "numAtLeast 0 (numDiv (Num e) pm)"
    using p(2)
  proof (cases rule: numAtLeast_cases)
    case 1
    with e show ?thesis by (simp add: numDiv_Num_Infinity numAtLeast_def)
  next
    case (2 ms)
    with p(1) have ms: "0 < ms" by simp
    have "numAtLeast 0 (toNumber False (e / ms))"
      by (rule toNumber_nonNegative) (use e ms in simp)
    with 2(1) e ms show ?thesis by (simp add: numDiv_Num_Num)
  qed
  then show ?thesis
  proof (cases rule: numAtLeast_cases)
    case 1
    with l show ?thesis by (simp add: numMul_Infinity_Num numAtLeast_def)
  next
    case (2 q)
    have "numAtLeast 0 (toNumber False (q * l))"
      by (rule toNumber_nonNegative) (use 2(2) l in simp)
    with 2 l show ?thesis by (simp add: numMul_Num_Num)
  qed
qed

lemma refilled_in_range:
  assumes t: "numLe (Num 0) t" "numLe t (Num l)" and a: "numAtLeast 0 a" and l: "0 \<le> l"
  shows "\<exists>r. mathMin (Num l) (numAdd t a) = Num r \<and> 0 \<le> r \<and> r \<le> l"
proof -
  have s: "numAtLeast 0 (numAdd t a)"
    using a
  proof (cases rule: numAtLeast_cases)
    case 1
    from numLe_zero_cases[OF t] 1 show ?thesis
      by (auto simp: numAdd_finite_Infinity numAtLeast_def)
  next
    case (2 x)
    from numLe_zero_cases[OF t] show ?thesis
    proof
      assume "t = NegZero"
      moreover have "numAtLeast 0 (toNumber False x)" by (rule toNumber_nonNegative[OF 2(2)])
      ultimately show ?thesis using 2 by (simp add: numAdd_NegZero_Num numAtLeast_def)
    next
      assume "\<exists>r. t = Num r \<and> 0 \<le> r \<and> r \<le> l"
      then obtain r where r: "t = Num r" "0 \<le> r" by blast
      have "numAtLeast 0 (toNumber False (r + x))"
        by (rule toNumber_nonNegative) (use r(2) 2(2) in simp)
      with r 2 show ?thesis by (simp add: numAdd_Num_Num numAtLeast_def)
    qed
  qed
  then show ?thesis
  proof (cases rule: numAtLeast_cases)
    case 1
    then show ?thesis using l by (simp add: mathMin_def numLt_def magnitude_def isNegative_def)
  next
    case (2 x)
    then show ?thesis using l by (auto simp: mathMin_def numLt_Num_Num isNegative_def)
  qed
qed

lemma charged_in_range:
  assumes r: "1 \<le> r" "r \<le> l" and l: "roundMag l = l" "floorLog2 l < 1024"
  shows "\<exists>m. numSub (Num r) (Num 1) = Num m \<and> 0 \<le> m \<and> m \<le> l"
proof (cases "r = 1")
  case True
  with r show ?thesis by (simp add: numSub_def numNeg_def numAdd_Num_Num)
next
  case False
  with r(1) have p: "0 < r - 1" by simp
  have "\<exists>m. toNumber False (r - 1) = Num m \<and> 0 \<le> m \<and> m \<le> l"
    by (rule toNumber_bounded[OF _ _ l]) (use r in simp_all)
  with p show ?thesis by (simp add: numSub_def numNeg_def numAdd_Num_Num)
qed

lemma rateLimiter_metered:
  assumes "\<not> exemptPath (path req)"
    and "\<not> isIPInList (stripBrackets (extractIP req)) (blackList cfg)"
    and "\<not> isIPInList (stripBrackets (extractIP req)) (whiteList cfg)"
    and "normalizeIP (stripBrackets (extractIP req)) = Inr key"
  shows "rateLimiter cfg now req ipRecords =
           (fst (admit cfg now (ipRecords key)), ipRecords(key \<mapsto> snd (admit cfg now (ipRecords key))))"
  using assms by (simp add: rateLimiter_def Let_def split: prod.splits)

lemma refill_in_range:
  assumes lim: "requestLimit cfg = Num l" "1 \<le> l"
    and per: "isNumber (periodHours cfg)" "numLt (Num 0) (periodHours cfg)"
    and clock: "isTimeValue now"
    and found: "\<forall>b. found = Some b \<longrightarrow>
                numLe (Num 0) (tokens b) \<and> numLe (tokens b) (requestLimit cfg) \<and>
                lastRefill b \<le> now \<and> isTimeValue (lastRefill b)"
  shows "\<exists>r. tokens (refill cfg now found) = Num r \<and> 0 \<le> r \<and> r \<le> l"
proof -
  define b0 where "b0 = (case found of
                       None \<Rightarrow> \<lparr>tokens = requestLimit cfg, lastRefill = now, lastAccess = now\<rparr>
                     | Some r \<Rightarrow> r)"
  have b0: "numLe (Num 0) (tokens b0)" "numLe (tokens b0) (Num l)"
    "0 \<le> now - lastRefill b0" "now - lastRefill b0 \<le> 2 ^ 54"
    using found lim clock
    by (auto simp: b0_def numLe_Num_Num isTimeValue_def split: option.splits)
  from fromInt_elapsed[OF b0(3,4)] obtain e where e: "fromInt (now - lastRefill b0) = Num e" "0 \<le> e"
    by blast
  from periodMs_positive[OF per] obtain p where p: "0 < p" "numAtLeast p (periodMs cfg)" by blast
  have a: "numAtLeast 0 (numMul (numDiv (Num e) (periodMs cfg)) (Num l))"
    by (rule refillAmount_nonNegative[OF e(2) p]) (use lim(2) in simp)
  have "tokens (refill cfg now found)
      = mathMin (Num l) (numAdd (tokens b0) (numMul (numDiv (Num e) (periodMs cfg)) (Num l)))"
    by (simp add: refill_def Let_def b0_def[symmetric] e(1) lim(1))
  moreover have "\<exists>r. mathMin (Num l) (numAdd (tokens b0) (numMul (numDiv (Num e) (periodMs cfg)) (Num l)))
                    = Num r \<and> 0 \<le> r \<and> r \<le> l"
    by (rule refilled_in_range[OF b0(1,2) a]) (use lim(2) in simp)
  ultimately show ?thesis by simp
qed

text \<open>
  Claim C5, amended. The claim assumes \<open>requestLimit \<ge> 1\<close>, a monotone clock and a bucket
  in range; the amendment adds that \<open>requestLimit\<close> is finite and that \<open>periodHours > 0\<close>,
  and reads the refill as the code computes it, in double arithmetic:
  \<open>min(requestLimit, tokens + (elapsed / periodMs) * requestLimit)\<close>, each operation
  rounded. On a request that is neither exempt nor on the deny list nor on the allow
  list, with \<open>requestLimit\<close> a finite Number that is at least 1, \<open>periodHours\<close> a Number
  above 0, \<open>now\<close> a time value, and the bucket of the normalized address (if there is one)
  holding \<open>0 \<le> tokens \<le> requestLimit\<close> and a time value \<open>lastRefill \<le> now\<close>: after the
  step the bucket exists, holds \<open>0 \<le> tokens \<le> requestLimit\<close> and \<open>lastRefill = now\<close>. When
  the refilled amount is at least 1 the request passes and one token is taken, otherwise
  the answer is 429 and nothing is taken. No other bucket changes.
\<close>

theorem rateLimiter_tokens_in_range:
  assumes lim: "isNumber (requestLimit cfg)" "isFinite (requestLimit cfg)"
      "numLe (Num 1) (requestLimit cfg)"
    and per: "isNumber (periodHours cfg)" "numLt (Num 0) (periodHours cfg)"
    and clock: "isTimeValue now"
    and metered: "\<not> exemptPath (path req)"
      "\<not> isIPInList (stripBrackets (extractIP req)) (blackList cfg)"
      "\<not> isIPInList (stripBrackets (extractIP req)) (whiteList cfg)"
    and key: "normalizeIP (stripBrackets (extractIP req)) = Inr key"
    and inv: "\<forall>b. ipRecords key = Some b \<longrightarrow>
                numLe (Num 0) (tokens b) \<and> numLe (tokens b) (requestLimit cfg) \<and>
                lastRefill b \<le> now \<and> isTimeValue (lastRefill b)"
  shows "(case snd (rateLimiter cfg now req ipRecords) key of
            None \<Rightarrow> False
          | Some b' \<Rightarrow>
              numLe (Num 0) (tokens b') \<and> numLe (tokens b') (requestLimit cfg) \<and> lastRefill b' = now \<and>
              (let b0 = (case ipRecords key of
                           None \<Rightarrow> \<lparr>tokens = requestLimit cfg, lastRefill = now, lastAccess = now\<rparr>
                         | Some b \<Rightarrow> b);
                   elapsed = fromInt (now - lastRefill b0);
                   refilled = mathMin (requestLimit cfg)
                     (numAdd (tokens b0) (numMul (numDiv elapsed (periodMs cfg)) (requestLimit cfg)))
               in if numLe (Num 1) refilled
                  then fst (rateLimiter cfg now req ipRecords) = Next \<and> tokens b' = numSub refilled (Num 1)
                  else fst (rateLimiter cfg now req ipRecords) = Status429 \<and> tokens b' = refilled))
         \<and> (\<forall>k. k \<noteq> key \<longrightarrow> snd (rateLimiter cfg now req ipRecords) k = ipRecords k)"
proof -
  from lim obtain l where l: "requestLimit cfg = Num l" "1 \<le> l" "roundMag l = l" "floorLog2 l < 1024"
    by (cases "requestLimit cfg") (auto simp: isFinite_def isNumber_def numLe_def numLt_def magnitude_def numval_def)
  note eq = rateLimiter_metered[OF metered key]
  define b0 where "b0 = (case ipRecords key of
                           None \<Rightarrow> \<lparr>tokens = requestLimit cfg, lastRefill = now, lastAccess = now\<rparr>
                         | Some b \<Rightarrow> b)"
  define refilled where "refilled = mathMin (requestLimit cfg)
      (numAdd (tokens b0) (numMul (numDiv (fromInt (now - lastRefill b0)) (periodMs cfg)) (requestLimit cfg)))"
  have r: "refill cfg now (ipRecords key) = \<lparr>tokens = refilled, lastRefill = now, lastAccess = now\<rparr>"
    by (simp add: refill_def Let_def b0_def refilled_def)
  from refill_in_range[OF l(1,2) per clock inv] obtain x where x: "refilled = Num x" "0 \<le> x" "x \<le> l"
    unfolding r by auto
  have a: "admit cfg now (ipRecords key) =
      (if numLt refilled (Num 1) then (Status429, \<lparr>tokens = refilled, lastRefill = now, lastAccess = now\<rparr>)
       else (Next, \<lparr>tokens = numSub refilled (Num 1), lastRefill = now, lastAccess = now\<rparr>))"
    unfolding admit_def r by (simp add: Let_def)
  show ?thesis
  proof (cases "1 \<le> x")
    case True
    from charged_in_range[OF True x(3) l(3,4)] obtain m where
      m: "numSub (Num x) (Num 1) = Num m" "0 \<le> m" "m \<le> l" by blast
    from True show ?thesis
      unfolding eq a b0_def[symmetric] Let_def refilled_def[symmetric]
      unfolding x(1) m(1) l(1)
      using m(2,3) by (simp add: numLe_Num_Num numLt_Num_Num)
  next
    case False
    then show ?thesis
      unfolding eq a b0_def[symmetric] Let_def refilled_def[symmetric]
      unfolding x(1) l(1)
      using x(2,3) by (simp add: numLe_Num_Num numLt_Num_Num)
  qed
qed

theorem rateLimiter_tokens_in_range_witness:
  "snd (rateLimiter \<lparr>requestLimit = Num 2, periodHours = Num 1, whiteList = [], blackList = []\<rparr> 1800000
             \<lparr>reqMethod = ''GET'', path = ''/v2/'', headers = Map.empty, remoteAddress = ''203.0.113.5''\<rparr>
             [''203.0.113.5'' \<mapsto> \<lparr>tokens = Num 0, lastRefill = 0, lastAccess = 0\<rparr>]) ''203.0.113.5''
      = Some \<lparr>tokens = Num 0, lastRefill = 1800000, lastAccess = 1800000\<rparr>
   \<and> fst (rateLimiter \<lparr>requestLimit = Num 2, periodHours = Num 1, whiteList = [], blackList = []\<rparr> 1800000
             \<lparr>reqMethod = ''GET'', path = ''/v2/'', headers = Map.empty, remoteAddress = ''203.0.113.5''\<rparr>
             [''203.0.113.5'' \<mapsto> \<lparr>tokens = Num 0, lastRefill = 0, lastAccess = 0\<rparr>]) = Next"
proof -
  let ?cfg = "\<lparr>requestLimit = Num 2, periodHours = Num 1, whiteList = [], blackList = []\<rparr>"
  let ?req = "\<lparr>reqMethod = ''GET'', path = ''/v2/'', headers = Map.empty, remoteAddress = ''203.0.113.5''\<rparr>"
  let ?b = "\<lparr>tokens = Num 0, lastRefill = 0, lastAccess = 0\<rparr>"
  have lim: "isNumber (requestLimit ?cfg)" "isFinite (requestLimit ?cfg)" "numLe (Num 1) (requestLimit ?cfg)"
    by code_simp+
  have per: "isNumber (periodHours ?cfg)" "numLt (Num 0) (periodHours ?cfg)"
    by code_simp+
  have clock: "isTimeValue 1800000" by (simp add: isTimeValue_def)
  have metered: "\<not> exemptPath (path ?req)"
    "\<not> isIPInList (stripBrackets (extractIP ?req)) (blackList ?cfg)"
    "\<not> isIPInList (stripBrackets (extractIP ?req)) (whiteList ?cfg)"
    by (simp_all add: exemptPath_def startsWith_def isIPInList_def)
  have key: "normalizeIP (stripBrackets (extractIP ?req)) = Inr ''203.0.113.5''"
    by (simp add: extractIP_def truthy_def stripBrackets_def normalizeIP_def startsWith_def)
  have inv: "\<forall>b. [''203.0.113.5'' \<mapsto> ?b] ''203.0.113.5'' = Some b \<longrightarrow>
                numLe (Num 0) (tokens b) \<and> numLe (tokens b) (requestLimit ?cfg) \<and>
                lastRefill b \<le> 1800000 \<and> isTimeValue (lastRefill b)"
    by (simp add: numLe_Num_Num isTimeValue_def)
  have adm: "admit ?cfg 1800000 (Some ?b) = (Next, \<lparr>tokens = Num 0, lastRefill = 1800000, lastAccess = 1800000\<rparr>)"
    by code_simp
  have run: "rateLimiter ?cfg 1800000 ?req [''203.0.113.5'' \<mapsto> ?b]
      = (Next, [''203.0.113.5'' \<mapsto> \<lparr>tokens = Num 0, lastRefill = 1800000, lastAccess = 1800000\<rparr>])"
    unfolding rateLimiter_metered[OF metered key] by (simp add: adm)
  from rateLimiter_tokens_in_range [where cfg = ?cfg and now = 1800000 and req = ?req
      and key = "''203.0.113.5''" and ipRecords = "[''203.0.113.5'' \<mapsto> ?b]",
      OF lim per clock metered key inv]
  show ?thesis unfolding run by simp
qed

text \<open>
  Claim C5 as stated assumes \<open>requestLimit \<ge> 1\<close>, a monotone clock and a bucket in range,
  and nothing about \<open>periodHours\<close>, which the configuration file sets without a check.
  With \<open>periodHours = -1\<close> the refill is negative: a bucket with 0 tokens, one hour
  later, holds \<open>-2\<close> tokens after the step.
\<close>

theorem rateLimiter_negative_period:
  "numLe (Num 1) (requestLimit \<lparr>requestLimit = Num 2, periodHours = Num (- 1), whiteList = [], blackList = []\<rparr>)
   \<and> \<not> exemptPath ''/v2/''
   \<and> normalizeIP (stripBrackets (extractIP
         \<lparr>reqMethod = ''GET'', path = ''/v2/'', headers = Map.empty, remoteAddress = ''203.0.113.5''\<rparr>))
       = Inr ''203.0.113.5''
   \<and> rateLimiter \<lparr>requestLimit = Num 2, periodHours = Num (- 1), whiteList = [], blackList = []\<rparr> 3600000
             \<lparr>reqMethod = ''GET'', path = ''/v2/'', headers = Map.empty, remoteAddress = ''203.0.113.5''\<rparr>
             [''203.0.113.5'' \<mapsto> \<lparr>tokens = Num 0, lastRefill = 0, lastAccess = 0\<rparr>]
     = (Status429, [''203.0.113.5'' \<mapsto> \<lparr>tokens = Num (- 2), lastRefill = 3600000, lastAccess = 3600000\<rparr>])
   \<and> \<not> numLe (Num 0) (Num (- 2))"
proof -
  let ?cfg = "\<lparr>requestLimit = Num 2, periodHours = Num (- 1), whiteList = [], blackList = []\<rparr>"
  let ?req = "\<lparr>reqMethod = ''GET'', path = ''/v2/'', headers = Map.empty, remoteAddress = ''203.0.113.5''\<rparr>"
  have metered: "\<not> exemptPath (path ?req)"
    "\<not> isIPInList (stripBrackets (extractIP ?req)) (blackList ?cfg)"
    "\<not> isIPInList (stripBrackets (extractIP ?req)) (whiteList ?cfg)"
    by (simp_all add: exemptPath_def startsWith_def isIPInList_def)
  have key: "normalizeIP (stripBrackets (extractIP ?req)) = Inr ''203.0.113.5''"
    by (simp add: extractIP_def truthy_def stripBrackets_def normalizeIP_def startsWith_def)
  have adm: "admit ?cfg 3600000 (Some \<lparr>tokens = Num 0, lastRefill = 0, lastAccess = 0\<rparr>)
      = (Status429, \<lparr>tokens = Num (- 2), lastRefill = 3600000, lastAccess = 3600000\<rparr>)"
    by code_simp
  have run: "rateLimiter ?cfg 3600000 ?req [''203.0.113.5'' \<mapsto> \<lparr>tokens = Num 0, lastRefill = 0, lastAccess = 0\<rparr>]
      = (Status429, [''203.0.113.5'' \<mapsto> \<lparr>tokens = Num (- 2), lastRefill = 3600000, lastAccess = 3600000\<rparr>])"
    unfolding rateLimiter_metered[OF metered key] by (simp add: adm)
  have "numLe (Num 1) (requestLimit ?cfg)" "\<not> numLe (Num 0) (Num (- 2))"
    by (simp_all add: numLe_Num_Num)
  with metered(1) key run show ?thesis by simp
qed

text \<open>
  Two more steps, one that the amended hypotheses keep out and one that depends on the
  rounding. With \<open>requestLimit = Infinity\<close> a new bucket is refilled by \<open>0 * Infinity\<close>,
  which is \<open>NaN\<close>: the request passes and the bucket holds \<open>NaN\<close>. With
  \<open>requestLimit = 49\<close> and \<open>periodHours = 49\<close> an empty bucket, one hour later, is
  refilled by \<open>(3600000 / 176400000) * 49\<close>, which is \<open>1 - 2^(-53)\<close> in double arithmetic:
  the answer is 429.
\<close>

lemma admit_infinite_limit:
  "admit \<lparr>requestLimit = Infinity False, periodHours = Num 1, whiteList = [], blackList = []\<rparr> 3600000 None
     = (Next, \<lparr>tokens = NaN, lastRefill = 3600000, lastAccess = 3600000\<rparr>)"
  by code_simp

lemma admit_rounds:
  "admit \<lparr>requestLimit = Num 49, periodHours = Num 49, whiteList = [], blackList = []\<rparr> 3600000
       (Some \<lparr>tokens = Num 0, lastRefill = 0, lastAccess = 0\<rparr>)
     = (Status429, \<lparr>tokens = Num (9007199254740991 / 9007199254740992),
                    lastRefill = 3600000, lastAccess = 3600000\<rparr>)"
  by code_simp

section \<open>Proofs: addresses\<close>


subsection \<open>\<open>split\<close> and \<open>join\<close>\<close>

lemma js_split_not_Nil [simp]: "js_split c s \<noteq> []"
  by (induction s) (auto split: list.splits)

lemma js_split_no_sep: "c \<notin> set a \<Longrightarrow> js_split c a = [a]"
  by (induction a) auto

lemma js_split_append_sep: "c \<notin> set a \<Longrightarrow> js_split c (a @ c # b) = a # js_split c b"
  by (induction a) auto

lemma js_split_join_append:
  "gs \<noteq> [] \<Longrightarrow> list_all (\<lambda>g. c \<notin> set g) gs \<Longrightarrow>
   js_split c (js_join [c] gs @ c # rest) = gs @ js_split c rest"
proof (induction gs)
  case Nil then show ?case by simp
next
  case (Cons p gs)
  show ?case
  proof (cases gs)
    case Nil with Cons.prems show ?thesis by (simp add: js_split_append_sep)
  next
    case (Cons q ps)
    with Cons.IH Cons.prems have "js_split c (js_join [c] gs @ c # rest) = gs @ js_split c rest" by simp
    with Cons Cons.prems show ?thesis by (simp add: js_split_append_sep)
  qed
qed

lemma js_split_join:
  "gs \<noteq> [] \<Longrightarrow> list_all (\<lambda>g. c \<notin> set g) gs \<Longrightarrow> js_split c (js_join [c] gs) = gs"
proof (induction gs)
  case Nil then show ?case by simp
next
  case (Cons p gs)
  show ?case
  proof (cases gs)
    case Nil with Cons.prems show ?thesis by (simp add: js_split_no_sep)
  next
    case (Cons q ps)
    with Cons.IH Cons.prems have "js_split c (js_join [c] gs) = gs" by simp
    with Cons Cons.prems show ?thesis by (simp add: js_split_append_sep)
  qed
qed

subsection \<open>Digits, \<open>parseInt\<close> and \<open>toString(16)\<close>\<close>

lemma digitVal_hexDigit: "d < 16 \<Longrightarrow> digitVal (hexDigit d) = Some d"
proof -
  assume "d < 16"
  then have "d = 0 \<or> d = 1 \<or> d = 2 \<or> d = 3 \<or> d = 4 \<or> d = 5 \<or> d = 6 \<or> d = 7 \<or> d = 8
      \<or> d = 9 \<or> d = 10 \<or> d = 11 \<or> d = 12 \<or> d = 13 \<or> d = 14 \<or> d = 15" by arith
  then show ?thesis by (elim disjE) (simp_all add: hexDigit_def digitVal_def)
qed

lemma hexDigit_not_colon: "d < 16 \<Longrightarrow> hexDigit d \<noteq> CHR '':'' \<and> CHR '':'' \<noteq> hexDigit d"
proof -
  assume "d < 16"
  from digitVal_hexDigit[OF this] have "digitVal (hexDigit d) \<noteq> digitVal CHR '':''"
    by (simp add: digitVal_def)
  then show ?thesis by auto
qed

lemma digitsValue_snoc: "digitsValue r (ds @ [c]) = digitsValue r ds * r + the (digitVal c)"
  by (simp add: digitsValue_def)

lemma digitsValue_toHex: "digitsValue 16 (toHex n) = n"
proof (induction n rule: toHex.induct)
  case (1 n)
  show ?case
  proof (cases "n < 16")
    case True
    then show ?thesis by (subst toHex.simps) (simp add: digitsValue_def digitVal_hexDigit)
  next
    case False
    with 1 have "digitsValue 16 (toHex (n div 16)) = n div 16" by simp
    with False show ?thesis
      by (subst toHex.simps) (simp add: digitsValue_snoc digitVal_hexDigit)
  qed
qed

lemma toHex_inj: "toHex a = toHex b \<Longrightarrow> a = b"
  by (metis digitsValue_toHex)

lemma toHex_no_colon: "CHR '':'' \<notin> set (toHex n)"
proof (induction n rule: toHex.induct)
  case (1 n)
  show ?case
  proof (cases "n < 16")
    case True
    then show ?thesis by (subst toHex.simps) (simp add: hexDigit_not_colon)
  next
    case False
    with 1 have "CHR '':'' \<notin> set (toHex (n div 16))" by simp
    with False show ?thesis
      by (subst toHex.simps) (simp add: hexDigit_not_colon)
  qed
qed

lemma isDigitOf_not_colon: "isDigitOf r c \<Longrightarrow> c \<noteq> CHR '':''"
  by (auto simp: isDigitOf_def digitVal_def)

lemma isDigitOf_not_ws: "isDigitOf r c \<Longrightarrow> \<not> isWhiteSpace c"
  by (auto simp: isDigitOf_def digitVal_def isWhiteSpace_def Let_def split: if_splits)

lemma isDigitOf_not_special:
  "isDigitOf 16 c \<Longrightarrow> c \<noteq> CHR ''-'' \<and> c \<noteq> CHR ''+'' \<and> c \<noteq> CHR ''x'' \<and> c \<noteq> CHR ''X''"
  by (auto simp: isDigitOf_def digitVal_def)

lemma digitsValue_bound:
  "list_all (isDigitOf r) ds \<Longrightarrow> digitsValue r ds < r ^ length ds"
proof (induction ds rule: rev_induct)
  case Nil then show ?case by (simp add: digitsValue_def)
next
  case (snoc c ds)
  then have ih: "digitsValue r ds < r ^ length ds" by simp
  from snoc.prems obtain d where d: "digitVal c = Some d" "d < r"
    by (auto simp: isDigitOf_def split: option.splits)
  have "digitsValue r ds * r + d < (digitsValue r ds + 1) * r" using d(2) by simp
  also have "\<dots> \<le> r ^ length ds * r" using ih by (intro mult_right_mono) simp_all
  finally show ?case by (simp add: digitsValue_snoc d(1) mult.commute)
qed

lemma parseInt_hextet: "isHextet g \<Longrightarrow> parseInt g 16 = Num (of_nat (digitsValue 16 g))"
proof -
  assume h: "isHextet g"
  then obtain c cs where g: "g = c # cs" by (cases g) (auto simp: isHextet_def)
  from h g have c: "isDigitOf 16 c" and cs: "list_all (isDigitOf 16) cs" by (auto simp: isHextet_def)
  have 1: "dropWhile isWhiteSpace g = g" using g isDigitOf_not_ws[OF c] by simp
  have 2: "take 1 g \<noteq> ''-''" "take 1 g \<noteq> ''+''" using g isDigitOf_not_special[OF c] by auto
  have 3: "take 2 g \<noteq> ''0x''" "take 2 g \<noteq> ''0X''"
  proof -
    show "take 2 g \<noteq> ''0x''"
    proof (cases cs)
      case Nil with g show ?thesis by simp
    next
      case (Cons d ds)
      with cs have "isDigitOf 16 d" by simp
      from isDigitOf_not_special[OF this] g Cons show ?thesis by simp
    qed
    show "take 2 g \<noteq> ''0X''"
    proof (cases cs)
      case Nil with g show ?thesis by simp
    next
      case (Cons d ds)
      with cs have "isDigitOf 16 d" by simp
      from isDigitOf_not_special[OF this] g Cons show ?thesis by simp
    qed
  qed
  have 4: "takeWhile (isDigitOf 16) g = g" using h by (simp add: isHextet_def list_all_iff)
  have 5: "(if take 1 g = ''-'' \<or> take 1 g = ''+'' then drop 1 g else g) = g" using 2 by simp
  have 6: "(if (16::nat) = 16 \<and> (take 2 g = ''0x'' \<or> take 2 g = ''0X'') then drop 2 g else g) = g"
    using 3 by simp
  have 7: "g \<noteq> []" using g by simp
  have "digitsValue 16 g < 16 ^ length g" using h by (intro digitsValue_bound) (simp add: isHextet_def)
  also have "(16::nat) ^ length g \<le> 16 ^ 4" using h by (intro power_increasing) (simp_all add: isHextet_def)
  finally have 8: "digitsValue 16 g < 2 ^ 53" by simp
  show ?thesis
    unfolding parseInt_def Let_def 1 5 6 4 toNumber_of_nat[OF 8] using 2(1) 7 by simp
qed

lemma hextet_value_bound: "isHextet g \<Longrightarrow> digitsValue 16 g < 65536"
proof -
  assume h: "isHextet g"
  then have "digitsValue 16 g < 16 ^ length g" by (intro digitsValue_bound) (simp add: isHextet_def)
  also have "(16::nat) ^ length g \<le> 16 ^ 4" using h by (intro power_increasing) (simp_all add: isHextet_def)
  finally show ?thesis by simp
qed

lemma hextet_bytes:
  assumes "isHextet g"
  shows "hiByte (parseInt g 16) = digitsValue 16 g div 256"
    and "loByte (parseInt g 16) = digitsValue 16 g mod 256"
proof -
  have t: "toInteger (Num (of_nat (digitsValue 16 g))) = int (digitsValue 16 g)"
    by (simp add: toInteger_def)
  have b: "digitsValue 16 g div 256 < 256" using hextet_value_bound[OF assms] by simp
  show "hiByte (parseInt g 16) = digitsValue 16 g div 256"
    unfolding parseInt_hextet[OF assms] hiByte_def t using b
    by (simp add: nat_div_distrib nat_mod_distrib zdiv_int[symmetric] zmod_int[symmetric])
  show "loByte (parseInt g 16) = digitsValue 16 g mod 256"
    unfolding parseInt_hextet[OF assms] loByte_def t
    by (simp add: nat_mod_distrib zmod_int[symmetric])
qed

lemma hextet_not_Nil: "isHextet g \<Longrightarrow> g \<noteq> []"
  by (auto simp: isHextet_def)

lemma length4E:
  assumes "4 \<le> length xs"
  obtains a b c d rest where "xs = a # b # c # d # rest"
proof -
  from assms obtain a xs1 where 1: "xs = a # xs1" "3 \<le> length xs1" by (cases xs) auto
  then obtain b xs2 where 2: "xs1 = b # xs2" "2 \<le> length xs2" by (cases xs1) auto
  then obtain c xs3 where 3: "xs2 = c # xs3" "1 \<le> length xs3" by (cases xs2) auto
  then obtain d rest where 4: "xs3 = d # rest" by (cases xs3) auto
  from 1 2 3 4 that show ?thesis by simp
qed

lemma hextet_isPart: "isHextet g \<Longrightarrow> isPart g"
  using isDigitOf_not_colon by (auto simp: isHextet_def isPart_def list_all_iff)

lemma hextets_parts: "list_all isHextet gs \<Longrightarrow> list_all isPart gs"
  by (induction gs) (auto simp: hextet_isPart)

lemma zero_hextet: "isHextet ''0''" "digitsValue 16 ''0'' = 0"
  by (simp_all add: isHextet_def isDigitOf_def digitVal_def digitsValue_def)

lemma octet_isPart: "isOctet d \<Longrightarrow> isPart d"
  using isDigitOf_not_colon by (auto simp: isOctet_def isPart_def list_all_iff)

lemma quad_isPart:
  assumes "isQuad q"
  shows "isPart (js_join ''.'' q)"
proof -
  from assms have l: "length q = 4" by (simp add: isQuad_def)
  then have "4 \<le> length q" by simp
  then obtain a b c d rest where "q = a # b # c # d # rest" by (rule length4E)
  with l have q: "q = [a, b, c, d]" by simp
  with assms have "isPart a" "isPart b" "isPart c" "isPart d"
    by (simp_all add: isQuad_def octet_isPart)
  then show ?thesis unfolding q by (auto simp: isPart_def)
qed

subsection \<open>\<open>parseIPv6\<close> on the text forms\<close>

lemma indexOf_none: "list_all (\<lambda>p. p \<noteq> x) ps \<Longrightarrow> indexOf x ps = None"
  by (induction ps) auto

lemma indexOf_append: "list_all (\<lambda>p. p \<noteq> x) ps \<Longrightarrow> indexOf x (ps @ x # rest) = Some (length ps)"
  by (induction ps) auto

lemma parts_nonempty: "list_all isPart ps \<Longrightarrow> list_all (\<lambda>p. p \<noteq> []) ps"
  by (induction ps) (auto simp: isPart_def)

lemma parts_no_colon: "list_all isPart ps \<Longrightarrow> list_all (\<lambda>g. CHR '':'' \<notin> set g) ps"
  by (induction ps) (auto simp: isPart_def)

lemma filter_nonempty_parts: "list_all isPart ps \<Longrightarrow> filter (\<lambda>p. p \<noteq> []) ps = ps"
  by (induction ps) (auto simp: isPart_def)

lemma filter_split_join:
  assumes "list_all isPart ps"
  shows "filter (\<lambda>p. p \<noteq> []) (js_split CHR '':'' (js_join '':'' ps)) = ps"
proof (cases ps)
  case Nil then show ?thesis by simp
next
  case (Cons g gs')
  then have "js_split CHR '':'' (js_join '':'' ps) = ps"
    using js_split_join[of ps "CHR '':''"] parts_no_colon[OF assms] by simp
  then show ?thesis using filter_nonempty_parts[OF assms] by simp
qed

lemma upt8: "[0..<8] = [0, 1, 2, 3, 4, 5, 6, 7 :: nat]"
  by (simp add: upt_rec)

lemma parseIPv6_full:
  assumes "ps \<noteq> []" "list_all isPart ps"
  shows "parseIPv6 (js_join '':'' ps) = Inr (groupBytes ps)"
proof -
  have sp: "js_split CHR '':'' (js_join '':'' ps) = ps"
    using js_split_join[OF assms(1) parts_no_colon[OF assms(2)]] by simp
  have "indexOf [] ps = None" by (rule indexOf_none[OF parts_nonempty[OF assms(2)]])
  then show ?thesis
    unfolding parseIPv6_def Let_def sp by simp
qed

lemma split_compressed:
  assumes bs: "list_all isPart bs"
  shows "js_split CHR '':'' (js_join '':'' bs @ ''::'' @ rest)
       = (if bs = [] then [[]] else bs) @ [] # js_split CHR '':'' rest"
proof (cases "bs = []")
  case True then show ?thesis by simp
next
  case False
  have "js_split CHR '':'' (js_join '':'' bs @ CHR '':'' # (CHR '':'' # rest))
      = bs @ js_split CHR '':'' (CHR '':'' # rest)"
    using js_split_join_append[OF False parts_no_colon[OF bs], of "CHR '':'' # rest"] by simp
  with False show ?thesis by simp
qed

lemma parseIPv6_compressed:
  assumes len: "length bs + length as \<le> 8" and bs: "list_all isPart bs" and as: "list_all isPart as"
  shows "parseIPv6 (js_join '':'' bs @ ''::'' @ js_join '':'' as)
       = Inr (groupBytes (bs @ replicate (8 - length bs - length as) ''0'' @ as))"
proof -
  let ?tail = "js_split CHR '':'' (js_join '':'' as)"
  let ?parts = "(if bs = [] then [[]] else bs) @ [] # ?tail"
  have sp: "js_split CHR '':'' (js_join '':'' bs @ ''::'' @ js_join '':'' as) = ?parts"
    by (rule split_compressed[OF bs])
  have idx: "indexOf [] ?parts = Some (length bs)"
  proof (cases "bs = []")
    case True then show ?thesis by simp
  next
    case False
    then show ?thesis using indexOf_append[OF parts_nonempty[OF bs], of ?tail] by simp
  qed
  have bef: "filter (\<lambda>p. p \<noteq> []) (take (length bs) ?parts) = bs"
    using filter_nonempty_parts[OF bs] by (cases "bs = []") simp_all
  have aft: "filter (\<lambda>p. p \<noteq> []) (drop (length bs + 1) ?parts) = as"
    using filter_split_join[OF as] by (cases "bs = []") simp_all
  have m: "nat (8 - int (length bs) - int (length as)) = 8 - length bs - length as"
    "\<not> 8 - int (length bs) - int (length as) < 0" using len by simp_all
  show ?thesis
    unfolding parseIPv6_def Let_def sp idx option.case bef aft m using len by simp
qed

text \<open>The first eight bytes come from the first four parts.\<close>

lemma groupBytes_top:
  assumes "list_all isHextet [a, b, c, d]"
  shows "take 8 (groupBytes (a # b # c # d # rest))
       = concat (map (\<lambda>v. [v div 256, v mod 256]) (map (digitsValue 16) [a, b, c, d]))"
proof -
  from assms have h: "isHextet a" "isHextet b" "isHextet c" "isHextet d" by simp_all
  note ne = hextet_not_Nil[OF h(1)] hextet_not_Nil[OF h(2)] hextet_not_Nil[OF h(3)] hextet_not_Nil[OF h(4)]
  show ?thesis
    unfolding groupBytes_def upt8
    by (simp add: Let_def ne hextet_bytes[OF h(1)] hextet_bytes[OF h(2)] hextet_bytes[OF h(3)]
          hextet_bytes[OF h(4)])
qed

lemma replicate_numeral_unfold: "replicate (numeral k) x = x # replicate (pred_numeral k) x"
  by (simp add: numeral_eq_Suc)

lemma normalizeIP_parts:
  assumes colon: "CHR '':'' \<in> set ip" and parse: "parseIPv6 ip = Inr (groupBytes ps)"
    and len: "4 \<le> length ps" and hs: "list_all isHextet (take 4 ps)"
  shows "normalizeIP ip
       = Inr (js_join '':'' (map toHex (map (digitsValue 16) (take 4 ps) @ [0, 0, 0, 0])) @ ''/64'')"
proof -
  from len obtain a b c d rest where ps: "ps = a # b # c # d # rest" by (rule length4E)
  with hs have h: "list_all isHextet [a, b, c, d]" by simp
  have recombine: "v div 256 * 256 + v mod 256 = v" for v :: nat by simp
  have rep: "replicate 8 (0::nat) = [0, 0, 0, 0, 0, 0, 0, 0]"
    by (simp add: replicate_numeral_unfold)
  show ?thesis
    unfolding normalizeIP_def parse ps Let_def sum.case groupBytes_top[OF h] upt8 rep
    using colon by (simp add: recombine)
qed

text \<open>The parts that \<open>parseIPv6\<close> makes of each text form.\<close>

lemma take_zero_run:
  assumes "n \<le> length bs + k" "n \<le> length bs + k'"
  shows "take n (bs @ replicate k z @ us) = take n (bs @ replicate k' z @ vs)"
proof -
  have "take n (bs @ replicate j z @ ws) = take n (bs @ replicate (n - length bs) z)"
    if "n \<le> length bs + j" for j ws
    using that by (auto simp: min_def)
  from this[OF assms(1)] this[OF assms(2)] show ?thesis by simp
qed

lemma map_zero_values:
  "list_all (\<lambda>g. digitsValue 16 g = 0) zs \<Longrightarrow> map (digitsValue 16) zs = replicate (length zs) 0"
  by (induction zs) auto

lemma normalizeIP_compressedQuad:
  assumes wf: "wf_ipv6_text (CompressedQuad bs as q)"
  shows "normalizeIP (render (CompressedQuad bs as q))
       = Inr (js_join '':'' (map toHex
           (take 4 (map (digitsValue 16) bs @ replicate (7 - length bs - length as) 0
                      @ map (digitsValue 16) as) @ [0, 0, 0, 0])) @ ''/64'')"
proof -
  from wf have g: "length bs + length as \<le> 5" "list_all isHextet bs" "list_all isHextet as" "isQuad q"
    by simp_all
  let ?as = "as @ [js_join ''.'' q]"
  let ?ps = "bs @ replicate (8 - length bs - length ?as) ''0'' @ ?as"
  have parts: "list_all isPart ?as" using hextets_parts[OF g(3)] quad_isPart[OF g(4)] by simp
  have p: "parseIPv6 (render (CompressedQuad bs as q)) = Inr (groupBytes ?ps)"
    unfolding render.simps
    by (rule parseIPv6_compressed[OF _ hextets_parts[OF g(2)] parts]) (use g(1) in simp)
  have c: "CHR '':'' \<in> set (render (CompressedQuad bs as q))" by simp
  have l: "4 \<le> length ?ps" using g(1) by simp
  let ?hs = "bs @ replicate (8 - length bs - length ?as) ''0'' @ as"
  have t4: "take 4 ?ps = take 4 ?hs" using g(1) by simp
  have "list_all isHextet ?hs" using g(2,3) by (auto simp: zero_hextet list_all_iff)
  then have h: "list_all isHextet (take 4 ?ps)"
    unfolding t4 by (auto simp: list_all_iff dest: in_set_takeD)
  have v: "map (digitsValue 16) (take 4 ?ps)
         = take 4 (map (digitsValue 16) bs @ replicate (7 - length bs - length as) 0
                     @ map (digitsValue 16) as)"
    unfolding t4 take_map[symmetric] by (simp add: zero_hextet)
  from normalizeIP_parts[OF c p l h] show ?thesis unfolding v .
qed

lemma normalizeIP_render:
  assumes wf: "wf_ipv6_text t" and rd: "readsTop64 t"
  shows "normalizeIP (render t) = Inr (js_join '':'' (map toHex (top64 t @ [0, 0, 0, 0])) @ ''/64'')"
proof (cases t)
  case (Full gs)
  with wf have g: "length gs = 8" "list_all isHextet gs" by simp_all
  then have ne: "gs \<noteq> []" by auto
  have p: "parseIPv6 (render t) = Inr (groupBytes gs)"
    unfolding Full render.simps by (rule parseIPv6_full[OF ne hextets_parts[OF g(2)]])
  have c: "CHR '':'' \<in> set (render t)"
  proof (rule ccontr)
    assume "CHR '':'' \<notin> set (render t)"
    then have "js_split CHR '':'' (render t) = [render t]" by (rule js_split_no_sep)
    moreover have "js_split CHR '':'' (render t) = gs"
      using js_split_join[OF ne parts_no_colon[OF hextets_parts[OF g(2)]]] Full by simp
    ultimately have "length gs = length [render t]" by simp
    with g(1) show False by simp
  qed
  have h: "list_all isHextet (take 4 gs)" using g(2) by (auto simp: list_all_iff dest: in_set_takeD)
  from normalizeIP_parts[OF c p _ h] g(1) show ?thesis
    by (simp add: Full top64_def take_map)
next
  case (Compressed bs as)
  with wf have g: "length bs + length as \<le> 7" "list_all isHextet bs" "list_all isHextet as" by simp_all
  let ?ps = "bs @ replicate (8 - length bs - length as) ''0'' @ as"
  have p: "parseIPv6 (render t) = Inr (groupBytes ?ps)"
    unfolding Compressed render.simps
    by (rule parseIPv6_compressed[OF _ hextets_parts[OF g(2)] hextets_parts[OF g(3)]]) (use g(1) in simp)
  have c: "CHR '':'' \<in> set (render t)" by (simp add: Compressed)
  have l: "4 \<le> length ?ps" using g(1) by simp
  have "list_all isHextet ?ps" using g(2,3) by (auto simp: zero_hextet list_all_iff)
  then have h: "list_all isHextet (take 4 ?ps)" by (auto simp: list_all_iff dest: in_set_takeD)
  have v: "map (digitsValue 16) ?ps = groups t" by (simp add: Compressed zero_hextet)
  from normalizeIP_parts[OF c p l h] show ?thesis
    unfolding top64_def v[symmetric] take_map .
next
  case (FullQuad gs q)
  with wf have g: "length gs = 6" "list_all isHextet gs" "isQuad q" by simp_all
  let ?ps = "gs @ [js_join ''.'' q]"
  have parts: "list_all isPart ?ps" using hextets_parts[OF g(2)] quad_isPart[OF g(3)] by simp
  have p: "parseIPv6 (render t) = Inr (groupBytes ?ps)"
    unfolding FullQuad render.simps by (rule parseIPv6_full[OF _ parts]) simp
  have c: "CHR '':'' \<in> set (render t)"
  proof (rule ccontr)
    assume "CHR '':'' \<notin> set (render t)"
    then have "js_split CHR '':'' (render t) = [render t]" by (rule js_split_no_sep)
    moreover have "js_split CHR '':'' (render t) = ?ps"
      using js_split_join[OF _ parts_no_colon[OF parts]] FullQuad by simp
    ultimately have "length ?ps = length [render t]" by simp
    with g(1) show False by simp
  qed
  have t4: "take 4 ?ps = take 4 gs" using g(1) by simp
  have h: "list_all isHextet (take 4 ?ps)"
    unfolding t4 using g(2) by (auto simp: list_all_iff dest: in_set_takeD)
  have v: "map (digitsValue 16) (take 4 ?ps) = top64 t"
    unfolding t4 using g(1) by (simp add: FullQuad top64_def take_map)
  from normalizeIP_parts[OF c p _ h] g(1) show ?thesis unfolding v by simp
next
  case (CompressedQuad bs as q)
  with wf have g: "length bs + length as \<le> 5" by simp
  from rd CompressedQuad have z: "list_all (\<lambda>g. digitsValue 16 g = 0) (take (length as - 2) as)" by simp
  define zs where "zs = take (length as - 2) as"
  define rs where "rs = drop (length as - 2) as"
  have as: "as = zs @ rs" by (simp add: zs_def rs_def)
  have lz: "length zs = length as - 2" by (simp add: zs_def)
  have mz: "map (digitsValue 16) zs = replicate (length zs) 0"
    using z by (intro map_zero_values) (simp add: zs_def)
  have mas: "map (digitsValue 16) as = replicate (length zs) 0 @ map (digitsValue 16) rs"
    by (subst as) (simp add: mz)
  have code: "map (digitsValue 16) bs @ replicate (7 - length bs - length as) 0 @ map (digitsValue 16) as
      = map (digitsValue 16) bs @ replicate (7 - length bs - length as + length zs) 0
          @ map (digitsValue 16) rs"
    by (simp add: mas replicate_add)
  have true: "groups t
      = map (digitsValue 16) bs @ replicate (6 - length bs - length as + length zs) 0
          @ (map (digitsValue 16) rs @ quadGroups q)"
    unfolding CompressedQuad groups.simps by (simp add: mas replicate_add)
  have v: "take 4 (map (digitsValue 16) bs @ replicate (7 - length bs - length as) 0
                     @ map (digitsValue 16) as) = top64 t"
    unfolding code top64_def true
    by (rule take_zero_run) (use g lz in simp_all)
  from normalizeIP_compressedQuad wf CompressedQuad show ?thesis unfolding v[symmetric] by simp
qed

text \<open>Two keys are equal only if their groups are.\<close>

lemma key_inj:
  assumes "js_join '':'' (map toHex (vs @ [0, 0, 0, 0])) @ ''/64''
         = js_join '':'' (map toHex (ws @ [0, 0, 0, 0])) @ ''/64''"
  shows "vs = ws"
proof -
  from assms have j: "js_join '':'' (map toHex (vs @ [0, 0, 0, 0]))
                    = js_join '':'' (map toHex (ws @ [0, 0, 0, 0]))" by simp
  have sp: "js_split CHR '':'' (js_join '':'' (map toHex us)) = map toHex us" if "us \<noteq> []" for us
    using js_split_join[of "map toHex us" "CHR '':''"] that
    by (simp add: list_all_iff toHex_no_colon)
  from arg_cong[OF j, of "js_split CHR '':''"]
  have "map toHex (vs @ [0, 0, 0, 0]) = map toHex (ws @ [0, 0, 0, 0])"
    by (simp only: sp[of "vs @ [0, 0, 0, 0]"] sp[of "ws @ [0, 0, 0, 0]"]
          append_is_Nil_conv list.distinct simp_thms)
  then have "vs @ [0, 0, 0, 0] = ws @ [0, 0, 0, 0]"
    by (rule map_injective) (auto simp: inj_on_def dest: toHex_inj)
  then show ?thesis by simp
qed

lemma shifted_groups_zero:
  fixes A B Q :: "nat list"
  assumes lb: "length B = nb" and la: "length A = na" and len: "nb + na \<le> 5"
    and eq: "take 4 (B @ replicate (7 - nb - na) 0 @ A) = take 4 (B @ replicate (6 - nb - na) 0 @ A @ Q)"
    and j: "j < na - 2"
  shows "A ! j = 0"
  using j
proof (induction j rule: less_induct)
  case (less j)
  define m where "m = 6 - nb - na"
  have m: "7 - nb - na = Suc m" using len by (simp add: m_def)
  have i: "nb + (m + j) < 4" using less.prems len by (simp add: m_def)
  have "take 4 (B @ replicate (Suc m) 0 @ A) ! (nb + (m + j))
      = take 4 (B @ replicate m 0 @ A @ Q) ! (nb + (m + j))"
    using eq unfolding m m_def[symmetric] by (simp only:)
  then have e: "(B @ replicate (Suc m) 0 @ A) ! (length B + (m + j))
              = (B @ replicate m 0 @ A @ Q) ! (length B + (m + j))"
    using i unfolding lb by (simp only: nth_take)
  have r: "(B @ replicate m 0 @ A @ Q) ! (length B + (m + j)) = A ! j"
  proof -
    have "(B @ replicate m 0 @ A @ Q) ! (length B + (m + j)) = (replicate m 0 @ A @ Q) ! (m + j)"
      by (rule nth_append_length_plus)
    also have "\<dots> = (replicate m (0::nat) @ A @ Q) ! (length (replicate m (0::nat)) + j)" by simp
    also have "\<dots> = (A @ Q) ! j" by (rule nth_append_length_plus)
    also have "\<dots> = A ! j"
    proof -
      have "j < length A" using less.prems la by linarith
      then show ?thesis by (simp only: nth_append if_True)
    qed
    finally show ?thesis .
  qed
  have l: "(B @ replicate (Suc m) 0 @ A) ! (length B + (m + j)) = (replicate (Suc m) 0 @ A) ! (m + j)"
    by (rule nth_append_length_plus)
  show ?case
  proof (cases j)
    case 0
    have "m < length (replicate (Suc m) (0::nat))" by simp
    then have "(replicate (Suc m) (0::nat) @ A) ! m = replicate (Suc m) (0::nat) ! m"
      by (simp only: nth_append if_True)
    also have "\<dots> = 0" by (rule nth_replicate) simp
    finally have "(replicate (Suc m) (0::nat) @ A) ! (m + j) = 0" unfolding 0 by simp
    with e r l show ?thesis by simp
  next
    case (Suc k)
    have "(replicate (Suc m) (0::nat) @ A) ! (m + j)
        = (replicate (Suc m) (0::nat) @ A) ! (length (replicate (Suc m) (0::nat)) + k)"
      unfolding Suc by simp
    also have "\<dots> = A ! k" by (rule nth_append_length_plus)
    finally have "(replicate (Suc m) (0::nat) @ A) ! (m + j) = A ! k" .
    moreover have "A ! k = 0" using less.IH[of k] less.prems Suc by simp
    ultimately show ?thesis using e r l by simp
  qed
qed

text \<open>
  \<open>readsTop64\<close> is exact: of a well-formed text form \<open>normalizeIP\<close> returns the key of
  its top 64 bits if and only if \<open>readsTop64\<close> holds of it.
\<close>

theorem normalizeIP_reads_exactly:
  assumes wf: "wf_ipv6_text t"
  shows "normalizeIP (render t) = Inr (js_join '':'' (map toHex (top64 t @ [0, 0, 0, 0])) @ ''/64'')
         \<longleftrightarrow> readsTop64 t"
proof
  assume "readsTop64 t"
  then show "normalizeIP (render t) = Inr (js_join '':'' (map toHex (top64 t @ [0, 0, 0, 0])) @ ''/64'')"
    by (rule normalizeIP_render[OF wf])
next
  assume k: "normalizeIP (render t) = Inr (js_join '':'' (map toHex (top64 t @ [0, 0, 0, 0])) @ ''/64'')"
  show "readsTop64 t"
  proof (cases t)
    case (CompressedQuad bs as q)
    with wf have w: "wf_ipv6_text (CompressedQuad bs as q)" by simp
    then have g: "length bs + length as \<le> 5" by simp
    let ?code = "take 4 (map (digitsValue 16) bs @ replicate (7 - length bs - length as) 0
                     @ map (digitsValue 16) as)"
    from k have "Inr (js_join '':'' (map toHex (?code @ [0, 0, 0, 0])) @ ''/64'')
               = (Inr (js_join '':'' (map toHex (top64 t @ [0, 0, 0, 0])) @ ''/64'') :: js_error + string)"
      unfolding CompressedQuad normalizeIP_compressedQuad[OF w] .
    then have "js_join '':'' (map toHex (?code @ [0, 0, 0, 0])) @ ''/64''
             = js_join '':'' (map toHex (top64 t @ [0, 0, 0, 0])) @ ''/64''"
      by (simp only: sum.inject)
    then have "?code = top64 t" by (rule key_inj)
    then have eq: "take 4 (map (digitsValue 16) bs @ replicate (7 - length bs - length as) 0
                     @ map (digitsValue 16) as)
                 = take 4 (map (digitsValue 16) bs @ replicate (6 - length bs - length as) 0
                     @ map (digitsValue 16) as @ quadGroups q)"
      unfolding top64_def CompressedQuad groups.simps .
    have "\<forall>j < length as - 2. digitsValue 16 (as ! j) = 0"
    proof (intro allI impI)
      fix j assume j: "j < length as - 2"
      from shifted_groups_zero[OF _ _ g eq j] j show "digitsValue 16 (as ! j) = 0" by simp
    qed
    then show ?thesis by (simp add: CompressedQuad list_all_length)
  qed simp_all
qed

theorem normalizeIP_reads_exactly_witness:
  "wf_ipv6_text (CompressedQuad [] [''1'', ''2'', ''3'', ''4''] [''5'', ''6'', ''7'', ''8''])
   \<and> \<not> readsTop64 (CompressedQuad [] [''1'', ''2'', ''3'', ''4''] [''5'', ''6'', ''7'', ''8''])
   \<and> normalizeIP (render (CompressedQuad [] [''1'', ''2'', ''3'', ''4''] [''5'', ''6'', ''7'', ''8'']))
       \<noteq> Inr (js_join '':'' (map toHex
             (top64 (CompressedQuad [] [''1'', ''2'', ''3'', ''4''] [''5'', ''6'', ''7'', ''8'']) @ [0, 0, 0, 0])) @ ''/64'')"
proof -
  let ?t = "CompressedQuad [] [''1'', ''2'', ''3'', ''4''] [''5'', ''6'', ''7'', ''8'']"
  have w: "wf_ipv6_text ?t"
    by (simp add: isHextet_def isOctet_def isQuad_def isDigitOf_def digitVal_def digitsValue_def)
  have r: "\<not> readsTop64 ?t" by (simp add: digitsValue_def digitVal_def)
  from normalizeIP_reads_exactly[OF w] w r show ?thesis by simp
qed

subsection \<open>The key of an IPv6 address\<close>

text \<open>
  Claim C8, as stated, speaks of every pair of syntactically valid IPv6 address strings.
  \<open>::1:2:3:4:5.6.7.8\<close> is one (its last two groups are written as a dotted quad); its
  groups are \<open>0:0:1:2:3:4:506:708\<close>, so it has the top 64 bits of \<open>0:0:1:2::\<close>.
  \<open>parseIPv6\<close> counts the dotted quad as one group and fills in three zero groups
  instead of two: the two strings get different keys.
\<close>

theorem normalizeIP_dotted_quad_differs:
  "wf_ipv6_text (CompressedQuad [] [''1'', ''2'', ''3'', ''4''] [''5'', ''6'', ''7'', ''8''])
   \<and> wf_ipv6_text (Compressed [''0'', ''0'', ''1'', ''2''] [])
   \<and> render (CompressedQuad [] [''1'', ''2'', ''3'', ''4''] [''5'', ''6'', ''7'', ''8'']) = ''::1:2:3:4:5.6.7.8''
   \<and> render (Compressed [''0'', ''0'', ''1'', ''2''] []) = ''0:0:1:2::''
   \<and> top64 (CompressedQuad [] [''1'', ''2'', ''3'', ''4''] [''5'', ''6'', ''7'', ''8'']) = [0, 0, 1, 2]
   \<and> top64 (Compressed [''0'', ''0'', ''1'', ''2''] []) = [0, 0, 1, 2]
   \<and> normalizeIP ''::1:2:3:4:5.6.7.8'' = Inr ''0:0:0:1:0:0:0:0/64''
   \<and> normalizeIP ''0:0:1:2::'' = Inr ''0:0:1:2:0:0:0:0/64''"
proof -
  have "normalizeIP ''::1:2:3:4:5.6.7.8'' = Inr ''0:0:0:1:0:0:0:0/64''"
    by code_simp
  moreover have "normalizeIP ''0:0:1:2::'' = Inr ''0:0:1:2:0:0:0:0/64''"
    by code_simp
  ultimately show ?thesis
    by (simp add: isHextet_def isOctet_def isQuad_def isDigitOf_def digitVal_def top64_def
          digitsValue_def quadGroups_def replicate_numeral_unfold)
qed

text \<open>
  Claim C8, amended to the address strings of which \<open>parseIPv6\<close> reads the top 64 bits:
  the eight hexadecimal groups, the same with one \<open>::\<close>, either form with a dotted quad
  for the last two groups, except that with both \<open>::\<close> and a dotted quad every group
  between the two, the last two apart, has to be zero. For two such strings \<open>normalizeIP\<close>
  returns the same key exactly when the addresses agree on their top 64 bits; the key
  is the four top groups and four zero groups in hexadecimal, joined by colons, followed
  by \<open>/64\<close>. A string with no colon is returned unchanged.
\<close>

theorem normalizeIP_top64:
  assumes "wf_ipv6_text x" "readsTop64 x" "wf_ipv6_text y" "readsTop64 y"
  shows "(normalizeIP (render x) = normalizeIP (render y) \<longleftrightarrow> top64 x = top64 y)
       \<and> normalizeIP (render x) = Inr (js_join '':'' (map toHex (top64 x @ [0, 0, 0, 0])) @ ''/64'')
       \<and> (CHR '':'' \<notin> set ip \<longrightarrow> normalizeIP ip = Inr ip)"
proof (intro conjI impI)
  show nx: "normalizeIP (render x) = Inr (js_join '':'' (map toHex (top64 x @ [0, 0, 0, 0])) @ ''/64'')"
    by (rule normalizeIP_render[OF assms(1,2)])
  have ny: "normalizeIP (render y) = Inr (js_join '':'' (map toHex (top64 y @ [0, 0, 0, 0])) @ ''/64'')"
    by (rule normalizeIP_render[OF assms(3,4)])
  show "normalizeIP (render x) = normalizeIP (render y) \<longleftrightarrow> top64 x = top64 y"
  proof
    assume "top64 x = top64 y" then show "normalizeIP (render x) = normalizeIP (render y)"
      by (simp add: nx ny)
  next
    assume "normalizeIP (render x) = normalizeIP (render y)"
    then have j: "js_join '':'' (map toHex (top64 x @ [0, 0, 0, 0]))
                = js_join '':'' (map toHex (top64 y @ [0, 0, 0, 0]))"
      by (simp add: nx ny)
    have sp: "js_split CHR '':'' (js_join '':'' (map toHex vs)) = map toHex vs" if "vs \<noteq> []" for vs
      using js_split_join[of "map toHex vs" "CHR '':''"] that
      by (simp add: list_all_iff toHex_no_colon)
    from arg_cong[OF j, of "js_split CHR '':''"]
    have "map toHex (top64 x @ [0, 0, 0, 0]) = map toHex (top64 y @ [0, 0, 0, 0])"
      by (simp only: sp[of "top64 x @ [0, 0, 0, 0]"] sp[of "top64 y @ [0, 0, 0, 0]"]
            append_is_Nil_conv list.distinct simp_thms)
    then have "top64 x @ [0, 0, 0, 0] = top64 y @ [0, 0, 0, 0]"
      by (rule map_injective) (auto simp: inj_on_def dest: toHex_inj)
    then show "top64 x = top64 y" by simp
  qed
next
  assume "CHR '':'' \<notin> set ip" then show "normalizeIP ip = Inr ip" by (simp add: normalizeIP_def)
qed

theorem normalizeIP_top64_witness:
  "wf_ipv6_text (CompressedQuad [] [''ffff''] [''192'', ''0'', ''2'', ''1''])
   \<and> readsTop64 (CompressedQuad [] [''ffff''] [''192'', ''0'', ''2'', ''1''])
   \<and> wf_ipv6_text (Full [''0'', ''0'', ''0'', ''0'', ''1'', ''2'', ''3'', ''4''])
   \<and> render (CompressedQuad [] [''ffff''] [''192'', ''0'', ''2'', ''1'']) = ''::ffff:192.0.2.1''
   \<and> render (Full [''0'', ''0'', ''0'', ''0'', ''1'', ''2'', ''3'', ''4'']) = ''0:0:0:0:1:2:3:4''
   \<and> top64 (CompressedQuad [] [''ffff''] [''192'', ''0'', ''2'', ''1''])
       = top64 (Full [''0'', ''0'', ''0'', ''0'', ''1'', ''2'', ''3'', ''4''])
   \<and> normalizeIP ''::ffff:192.0.2.1'' = normalizeIP ''0:0:0:0:1:2:3:4''
   \<and> normalizeIP ''::ffff:192.0.2.1'' = Inr ''0:0:0:0:0:0:0:0/64''
   \<and> normalizeIP ''203.0.113.5'' = Inr ''203.0.113.5''"
proof -
  let ?x = "CompressedQuad [] [''ffff''] [''192'', ''0'', ''2'', ''1'']"
  let ?y = "Full [''0'', ''0'', ''0'', ''0'', ''1'', ''2'', ''3'', ''4'']"
  have a: "wf_ipv6_text ?x" "readsTop64 ?x" "wf_ipv6_text ?y" "readsTop64 ?y"
    by (simp_all add: isHextet_def isOctet_def isQuad_def isDigitOf_def digitVal_def digitsValue_def)
  have t: "top64 ?x = [0, 0, 0, 0]" "top64 ?y = [0, 0, 0, 0]"
    by (simp_all add: top64_def digitsValue_def digitVal_def replicate_numeral_unfold)
  have r: "render ?x = ''::ffff:192.0.2.1''" "render ?y = ''0:0:0:0:1:2:3:4''"
    by simp_all
  have c: "CHR '':'' \<notin> set ''203.0.113.5''" by simp
  have h: "toHex 0 = ''0''" by (simp add: toHex.simps hexDigit_def)
  note main = normalizeIP_top64 [OF a, of "''203.0.113.5''"]
  from main t have "normalizeIP (render ?x) = normalizeIP (render ?y)" by simp
  then have n: "normalizeIP ''::ffff:192.0.2.1'' = normalizeIP ''0:0:0:0:1:2:3:4''"
    unfolding r .
  from main have "normalizeIP (render ?x) = Inr (js_join '':'' (map toHex (top64 ?x @ [0, 0, 0, 0])) @ ''/64'')"
    by blast
  then have k: "normalizeIP ''::ffff:192.0.2.1'' = Inr ''0:0:0:0:0:0:0:0/64''"
    unfolding r t by (simp add: h)
  from main c have i: "normalizeIP ''203.0.113.5'' = Inr ''203.0.113.5''" by blast
  from a(1,2,3) r t n k i show ?thesis by (simp only: simp_thms)
qed

subsection \<open>Membership on malformed input\<close>

text \<open>
  Claim C9 says that \<open>isIPInCIDR\<close> answers false whenever the address or the CIDR is
  malformed. The \<open>try\<close> block only catches what is thrown, and the parsers throw almost
  nothing: an octet above 255 is stored modulo 256, so \<open>266.0.0.1\<close> is found in
  \<open>10.0.0.0/8\<close>; a prefix that is not a number makes every mask \<open>0xff\<close>, so the CIDR
  \<open>1.2.3.4/abc\<close> matches \<open>1.2.3.4\<close>; and any text at all is found in a \<open>/0\<close> range.
\<close>

theorem isIPInCIDR_accepts_malformed:
  "isIPInCIDR ''266.0.0.1'' ''10.0.0.0/8''
   \<and> isIPInList ''266.0.0.1'' [''10.0.0.0/8'']
   \<and> isIPInCIDR ''1.2.3.4'' ''1.2.3.4/abc''
   \<and> isIPInCIDR ''abc'' ''0.0.0.0/0''"
  by code_simp

text \<open>
  The \<open>catch\<close> of \<open>isIPInCIDR\<close> is reached only by the one error the parsers raise, an
  IPv6 text with \<open>::\<close> and more than eight groups.
\<close>

lemma isIPInCIDR_catches: "\<not> isIPInCIDR ''1:2:3:4:5:6:7:8:9::'' ''::/0''"
  by code_simp

section \<open>Proofs: routes/github.js\<close>

subsection \<open>The redirect walk\<close>

lemma walk_cap: "n > 20 \<Longrightarrow> proxyGitHubRequest fs req fetch url n =
    (\<lparr>code = 508, sent_headers = [], content = TooManyRedirects, piped = False\<rparr>, [])"
  by (subst proxyGitHubRequest.simps) simp

lemma walk_failed: "n \<le> 20 \<Longrightarrow> fetch n url = None \<Longrightarrow> proxyGitHubRequest fs req fetch url n =
    (\<lparr>code = 500, sent_headers = [], content = ServerError, piped = False\<rparr>, [url])"
  by (subst proxyGitHubRequest.simps) simp

lemma walk_redirect:
  "n \<le> 20 \<Longrightarrow> fetch n url = Some r \<Longrightarrow>
   truthy (headers_get r ''location'') \<and> status r \<ge> 300 \<and> status r < 400 \<Longrightarrow>
   proxyGitHubRequest fs req fetch url n =
     apsnd ((#) url) (proxyGitHubRequest fs req fetch (the (headers_get r ''location'')) (n + 1))"
  by (subst proxyGitHubRequest.simps) simp

lemma walk_final:
  "n \<le> 20 \<Longrightarrow> fetch n url = Some r \<Longrightarrow>
   \<not> (truthy (headers_get r ''location'') \<and> status r \<ge> 300 \<and> status r < 400) \<Longrightarrow>
   proxyGitHubRequest fs req fetch url n = (finalResponse fs req url r, [url])"
  by (subst proxyGitHubRequest.simps) auto

lemma walk_length: "length (snd (proxyGitHubRequest fs req fetch url n)) \<le> 21 - n"
proof (induction fs req fetch url n rule: proxyGitHubRequest.induct)
  case (1 fs req fetch url n)
  show ?case
  proof (cases "n > 20")
    case True then show ?thesis by (simp add: walk_cap)
  next
    case False
    then have n: "n \<le> 20" by simp
    show ?thesis
    proof (cases "fetch n url")
      case None with n show ?thesis by (simp add: walk_failed)
    next
      case (Some r)
      show ?thesis
      proof (cases "truthy (headers_get r ''location'') \<and> status r \<ge> 300 \<and> status r < 400")
        case True
        from "1.IH"[OF False Some True]
        have "length (snd (proxyGitHubRequest fs req fetch (the (headers_get r ''location'')) (n + 1))) \<le> 21 - (n + 1)" .
        with n show ?thesis
          unfolding walk_redirect[where fetch = fetch and n = n and url = url and r = r, OF n Some True]
          by simp
      next
        case False
        with n Some show ?thesis by (simp add: walk_final)
      qed
    qed
  qed
qed

text \<open>
  Claim C4. The walk is a total function: it returns for every upstream, and it fetches
  at most 21 URLs, the first one and at most 20 redirect targets. A response with a
  status from 300 to 399 and a non-empty \<open>Location\<close> makes the handler call itself on
  that URL with the counter increased by one; a call with a counter above 20 answers
  508 and fetches nothing.
\<close>

theorem redirect_walk_bounded:
  "length (snd (proxyGitHubRequest fs req fetch url 0)) \<le> 21
   \<and> (n \<le> 20 \<and> fetch n url = Some r \<and>
        truthy (headers_get r ''location'') \<and> status r \<ge> 300 \<and> status r < 400 \<longrightarrow>
        proxyGitHubRequest fs req fetch url n =
          apsnd ((#) url) (proxyGitHubRequest fs req fetch (the (headers_get r ''location'')) (n + 1)))
   \<and> (n > 20 \<longrightarrow> proxyGitHubRequest fs req fetch url n =
          (\<lparr>code = 508, sent_headers = [], content = TooManyRedirects, piped = False\<rparr>, []))"
  using walk_length[of fs req fetch url 0] by (auto simp: walk_cap walk_redirect)

theorem redirect_walk_bounded_witness:
  "length (snd (proxyGitHubRequest 100 \<lparr>reqMethod = ''GET'', path = ''/x'', headers = Map.empty, remoteAddress = []\<rparr>
      (\<lambda>n u. Some \<lparr>status = 302, rheaders = [(''location'', u)], body = []\<rparr>) ''https://github.com/a/b/archive/m.zip'' 0)) \<le> 21
   \<and> proxyGitHubRequest 100 \<lparr>reqMethod = ''GET'', path = ''/x'', headers = Map.empty, remoteAddress = []\<rparr>
      (\<lambda>n u. Some \<lparr>status = 302, rheaders = [(''location'', u)], body = []\<rparr>) ''https://github.com/a/b/archive/m.zip'' 20
     = apsnd ((#) ''https://github.com/a/b/archive/m.zip'')
        (proxyGitHubRequest 100 \<lparr>reqMethod = ''GET'', path = ''/x'', headers = Map.empty, remoteAddress = []\<rparr>
          (\<lambda>n u. Some \<lparr>status = 302, rheaders = [(''location'', u)], body = []\<rparr>) ''https://github.com/a/b/archive/m.zip'' 21)
   \<and> proxyGitHubRequest 100 \<lparr>reqMethod = ''GET'', path = ''/x'', headers = Map.empty, remoteAddress = []\<rparr>
      (\<lambda>n u. Some \<lparr>status = 302, rheaders = [(''location'', u)], body = []\<rparr>) ''https://github.com/a/b/archive/m.zip'' 21
     = (\<lparr>code = 508, sent_headers = [], content = TooManyRedirects, piped = False\<rparr>, [])"
  using redirect_walk_bounded [of 100 "\<lparr>reqMethod = ''GET'', path = ''/x'', headers = Map.empty, remoteAddress = []\<rparr>"
      "\<lambda>n u. Some \<lparr>status = 302, rheaders = [(''location'', u)], body = []\<rparr>" "''https://github.com/a/b/archive/m.zip''"
      20 "\<lparr>status = 302, rheaders = [(''location'', ''https://github.com/a/b/archive/m.zip'')], body = []\<rparr>"]
    redirect_walk_bounded [of 100 "\<lparr>reqMethod = ''GET'', path = ''/x'', headers = Map.empty, remoteAddress = []\<rparr>"
      "\<lambda>n u. Some \<lparr>status = 302, rheaders = [(''location'', u)], body = []\<rparr>" "''https://github.com/a/b/archive/m.zip''"
      21 "\<lparr>status = 302, rheaders = [(''location'', ''https://github.com/a/b/archive/m.zip'')], body = []\<rparr>"]
  by (simp add: truthy_def headers_get_def)

text \<open>An upstream that redirects every URL to itself: 21 fetches, then 508.\<close>

lemma redirect_loop_ends:
   "fst (proxyGitHubRequest 100 \<lparr>reqMethod = ''GET'', path = ''/x'', headers = Map.empty, remoteAddress = []\<rparr>
      (\<lambda>n u. Some \<lparr>status = 302, rheaders = [(''location'', u)], body = []\<rparr>) ''u'' 0)
       = \<lparr>code = 508, sent_headers = [], content = TooManyRedirects, piped = False\<rparr>
   \<and> length (snd (proxyGitHubRequest 100 \<lparr>reqMethod = ''GET'', path = ''/x'', headers = Map.empty, remoteAddress = []\<rparr>
      (\<lambda>n u. Some \<lparr>status = 302, rheaders = [(''location'', u)], body = []\<rparr>) ''u'' 0)) = 21"
  by code_simp

subsection \<open>The gates\<close>

text \<open>
  Claim C3 says that responses to requests other than GET and responses with a status
  outside 200 to 299 are never gated. The size check stands behind the \<open>if\<close> that
  holds the content type check, not inside it: a HEAD request whose response announces
  10 bytes under a limit of 5 is answered 413, and so is a GET whose response is a 404.
\<close>

theorem size_gate_any_method_any_status:
  "fst (proxyGitHubRequest 5 \<lparr>reqMethod = ''HEAD'', path = ''/x'', headers = Map.empty, remoteAddress = []\<rparr>
      (\<lambda>n u. Some \<lparr>status = 200, rheaders = [(''content-length'', ''10'')], body = []\<rparr>)
      ''https://github.com/a/b/archive/m.zip'' 0)
     = \<lparr>code = 413, sent_headers = [], content = FileTooLarge, piped = False\<rparr>
   \<and> fst (proxyGitHubRequest 5 \<lparr>reqMethod = ''GET'', path = ''/x'', headers = Map.empty, remoteAddress = []\<rparr>
      (\<lambda>n u. Some \<lparr>status = 404, rheaders = [(''content-length'', ''10'')], body = ''0123456789''\<rparr>)
      ''https://github.com/a/b/archive/m.zip'' 0)
     = \<lparr>code = 413, sent_headers = [], content = FileTooLarge, piped = False\<rparr>"
proof -
  have n: "numLt (fromInt 5) (toNumber False 10)" by code_simp
  show ?thesis
    by (simp add: proxyGitHubRequest.simps finalResponse_def tooLarge_def truthy_def headers_get_def baseType_def
        blockedContentTypes_def toLowerCase_def
        parseInt_def isWhiteSpace_def isDigitOf_def digitVal_def digitsValue_def Let_def n)
qed

text \<open>
  Claim C3, amended. For the response \<open>r\<close> of a fetch of the walk: if \<open>r\<close> is a
  redirect (status 300 to 399 with a non-empty \<open>Location\<close>) no gate looks at it and the
  walk goes on at the target. Otherwise \<open>r\<close> is final. The content type gate applies
  only to a GET request with a status from 200 to 299: if the part of \<open>Content-Type\<close>
  before the first semicolon, in lower case, is one of the four blocked types, the reply
  is 403; for another method or status no reply is the content type refusal. The size
  gate applies to every final response that passed the first gate, whatever the method
  and the status: a \<open>Content-Length\<close> above \<open>fileSize\<close> gives 413. A final response
  that passes both gates is answered with the upstream status.
\<close>

theorem content_gating:
  assumes "n \<le> 20" and "fetch n url = Some r"
  shows "(truthy (headers_get r ''location'') \<and> status r \<ge> 300 \<and> status r < 400 \<longrightarrow>
            proxyGitHubRequest fs req fetch url n =
              apsnd ((#) url) (proxyGitHubRequest fs req fetch (the (headers_get r ''location'')) (n + 1)))
       \<and> (\<not> (truthy (headers_get r ''location'') \<and> status r \<ge> 300 \<and> status r < 400) \<longrightarrow>
            (reqMethod req = ''GET'' \<and> status r \<ge> 200 \<and> status r < 300 \<and> baseType r \<in> set blockedContentTypes \<longrightarrow>
               fst (proxyGitHubRequest fs req fetch url n) =
                 \<lparr>code = 403, sent_headers = [], content = ContentTypeNotAllowed, piped = False\<rparr>)
          \<and> (\<not> (reqMethod req = ''GET'' \<and> status r \<ge> 200 \<and> status r < 300) \<longrightarrow>
               content (fst (proxyGitHubRequest fs req fetch url n)) \<noteq> ContentTypeNotAllowed)
          \<and> (\<not> (reqMethod req = ''GET'' \<and> status r \<ge> 200 \<and> status r < 300 \<and> baseType r \<in> set blockedContentTypes) \<and>
              tooLarge fs r \<longrightarrow>
               fst (proxyGitHubRequest fs req fetch url n) =
                 \<lparr>code = 413, sent_headers = [], content = FileTooLarge, piped = False\<rparr>)
          \<and> (\<not> (reqMethod req = ''GET'' \<and> status r \<ge> 200 \<and> status r < 300 \<and> baseType r \<in> set blockedContentTypes) \<and>
              \<not> tooLarge fs r \<longrightarrow>
               code (fst (proxyGitHubRequest fs req fetch url n)) = status r))"
proof (intro conjI impI)
  assume "truthy (headers_get r ''location'') \<and> status r \<ge> 300 \<and> status r < 400"
  from walk_redirect[where fetch = fetch and n = n and url = url and r = r, OF assms this]
  show "proxyGitHubRequest fs req fetch url n =
      apsnd ((#) url) (proxyGitHubRequest fs req fetch (the (headers_get r ''location'')) (n + 1))" .
next
  assume nr: "\<not> (truthy (headers_get r ''location'') \<and> status r \<ge> 300 \<and> status r < 400)"
  note fin = walk_final[where fetch = fetch and n = n and url = url and r = r, OF assms nr]
  { assume "reqMethod req = ''GET'' \<and> status r \<ge> 200 \<and> status r < 300 \<and> baseType r \<in> set blockedContentTypes"
    then show "fst (proxyGitHubRequest fs req fetch url n) =
                 \<lparr>code = 403, sent_headers = [], content = ContentTypeNotAllowed, piped = False\<rparr>"
      by (simp add: fin finalResponse_def) }
  { assume "\<not> (reqMethod req = ''GET'' \<and> status r \<ge> 200 \<and> status r < 300)"
    then show "content (fst (proxyGitHubRequest fs req fetch url n)) \<noteq> ContentTypeNotAllowed"
      by (auto simp: fin finalResponse_def Let_def) }
  { assume "\<not> (reqMethod req = ''GET'' \<and> status r \<ge> 200 \<and> status r < 300 \<and> baseType r \<in> set blockedContentTypes) \<and>
              tooLarge fs r"
    then show "fst (proxyGitHubRequest fs req fetch url n) =
                 \<lparr>code = 413, sent_headers = [], content = FileTooLarge, piped = False\<rparr>"
      by (auto simp: fin finalResponse_def) }
  { assume "\<not> (reqMethod req = ''GET'' \<and> status r \<ge> 200 \<and> status r < 300 \<and> baseType r \<in> set blockedContentTypes) \<and>
              \<not> tooLarge fs r"
    then show "code (fst (proxyGitHubRequest fs req fetch url n)) = status r"
      by (auto simp: fin finalResponse_def Let_def) }
qed

theorem content_gating_witness:
  "fst (proxyGitHubRequest 5 \<lparr>reqMethod = ''GET'', path = ''/x'', headers = Map.empty, remoteAddress = []\<rparr>
      (\<lambda>n u. Some \<lparr>status = 200, rheaders = [(''content-type'', ''Text/HTML; charset=utf-8'')], body = ''<html>''\<rparr>)
      ''https://raw.githubusercontent.com/a/b/main/index.html'' 0)
     = \<lparr>code = 403, sent_headers = [], content = ContentTypeNotAllowed, piped = False\<rparr>"
proof -
  have m: "reqMethod \<lparr>reqMethod = ''GET'', path = ''/x'', headers = Map.empty, remoteAddress = []\<rparr> = ''GET''" by simp
  have b: "baseType \<lparr>status = 200, rheaders = [(''content-type'', ''Text/HTML; charset=utf-8'')], body = ''<html>''\<rparr>
        \<in> set blockedContentTypes"
    by code_simp
  have l: "\<not> (truthy (headers_get \<lparr>status = 200, rheaders = [(''content-type'', ''Text/HTML; charset=utf-8'')], body = ''<html>''\<rparr> ''location'')
      \<and> status \<lparr>status = 200, rheaders = [(''content-type'', ''Text/HTML; charset=utf-8'')], body = ''<html>''\<rparr> \<ge> 300
      \<and> status \<lparr>status = 200, rheaders = [(''content-type'', ''Text/HTML; charset=utf-8'')], body = ''<html>''\<rparr> < 400)" by simp
  from content_gating [of 0 "\<lambda>n u. Some \<lparr>status = 200, rheaders = [(''content-type'', ''Text/HTML; charset=utf-8'')], body = ''<html>''\<rparr>"
      "''https://raw.githubusercontent.com/a/b/main/index.html''"
      "\<lparr>status = 200, rheaders = [(''content-type'', ''Text/HTML; charset=utf-8'')], body = ''<html>''\<rparr>"
      5 "\<lparr>reqMethod = ''GET'', path = ''/x'', headers = Map.empty, remoteAddress = []\<rparr>"] m b l
  show ?thesis by simp
qed

subsection \<open>The script rewrite\<close>

lemma urlMatchLen_pos: "urlMatchLen host s = Some n \<Longrightarrow> 0 < n \<and> n \<le> length s"
proof -
  assume a: "urlMatchLen host s = Some n"
  then obtain p where p: "n = p + length (takeWhile urlChar (drop p s))" "takeWhile urlChar (drop p s) \<noteq> []"
    by (auto simp: urlMatchLen_def Let_def split: if_splits option.splits)
  have "length (takeWhile urlChar (drop p s)) \<le> length (drop p s)" by (rule length_takeWhile_le)
  moreover have "drop p s \<noteq> []" using p(2) by auto
  ultimately show ?thesis using p by auto
qed

lemma replaceUrls_Nil [simp]: "replaceUrls host base [] = []"
  by (subst replaceUrls.simps) simp

lemma replaceUrls_match:
  "urlMatchLen host s = Some n \<Longrightarrow>
   replaceUrls host base s = base @ ''/'' @ take n s @ replaceUrls host base (drop n s)"
  using urlMatchLen_pos[of host s n] by (subst replaceUrls.simps) (auto split: list.splits)

lemma replaceUrls_no_match:
  "urlMatchLen host (c # cs) = None \<Longrightarrow> replaceUrls host base (c # cs) = c # replaceUrls host base cs"
  by (subst replaceUrls.simps) simp

lemma replaceUrls_skip:
  "(\<forall>i<length pre. urlMatchLen host (drop i (pre @ rest)) = None) \<Longrightarrow>
   replaceUrls host base (pre @ rest) = pre @ replaceUrls host base rest"
proof (induction pre)
  case Nil then show ?case by simp
next
  case (Cons c pre)
  from Cons.prems have h: "urlMatchLen host ((c # pre) @ rest) = None" by force
  have "\<forall>i<length pre. urlMatchLen host (drop i (pre @ rest)) = None"
  proof (intro allI impI)
    fix i assume "i < length pre"
    then have "Suc i < length (c # pre)" by simp
    with Cons.prems have "urlMatchLen host (drop (Suc i) ((c # pre) @ rest)) = None" by blast
    then show "urlMatchLen host (drop i (pre @ rest)) = None" by simp
  qed
  with Cons.IH have "replaceUrls host base (pre @ rest) = pre @ replaceUrls host base rest" by simp
  with h show ?case by (simp add: replaceUrls_no_match)
qed

lemma replaceUrls_occurrence:
  assumes "\<forall>i<length pre. urlMatchLen host (drop i (pre @ m @ post)) = None"
    and "urlMatchLen host (m @ post) = Some (length m)"
  shows "replaceUrls host base (pre @ m @ post) = pre @ base @ ''/'' @ m @ replaceUrls host base post"
  using replaceUrls_skip[OF assms(1)] replaceUrls_match[OF assms(2)] by simp

lemma replaceUrls_unchanged:
  assumes "\<forall>i<length s. urlMatchLen host (drop i s) = None"
  shows "replaceUrls host base s = s"
  using replaceUrls_skip[of s host "[]" base] assms by simp

lemma no_content_length:
  "''content-length'' \<notin> fst ` set (filter (\<lambda>kv. fst kv \<noteq> ''content-length'') hs)"
  by auto

lemma all_less_length_Cons: "(\<forall>i<length (c # cs). P i) = (P 0 \<and> (\<forall>i<length cs. P (Suc i)))"
  by (auto simp: less_Suc_eq_0_disj)

text \<open>
  Claim C7 differs from the code in three places. The base put in front of a link never
  reads \<open>X-Forwarded-Proto\<close>: with that header set to \<open>http\<close> the base is still
  \<open>https://proxy.example\<close>. The patterns end in \<open>[^\s"']+\<close>, not \<open>\S+\<close>: in a list
  of quoted links without spaces the code rewrites both links, the claim's pattern only
  the first. And the test for a script looks at the whole URL fetched last, query string
  included: \<open>install.sh?raw=1\<close> is streamed unchanged and keeps its \<open>Content-Length\<close>.
\<close>

theorem script_rewrite_differs:
  \<open>realHost \<lparr>reqMethod = ''GET'', path = ''/x'', headers = [''x-forwarded-proto'' \<mapsto> ''http'', ''host'' \<mapsto> ''proxy.example''], remoteAddress = []\<rparr>
     = ''https://proxy.example''
   \<and> spec_proxyBase \<lparr>reqMethod = ''GET'', path = ''/x'', headers = [''x-forwarded-proto'' \<mapsto> ''http'', ''host'' \<mapsto> ''proxy.example''], remoteAddress = []\<rparr>
     = ''http://proxy.example''
   \<and> rewriteScript ''https://p.example'' ''["https://github.com/a","https://github.com/b"]''
     = ''["https://p.example/https://github.com/a","https://p.example/https://github.com/b"]''
   \<and> spec_rewriteScript ''https://p.example'' ''["https://github.com/a","https://github.com/b"]''
     = ''["https://p.example/https://github.com/a","https://github.com/b"]''
   \<and> spec_isScript ''https://github.com/a/b/raw/main/install.sh?raw=1''
   \<and> fst (proxyGitHubRequest 100
        \<lparr>reqMethod = ''GET'', path = ''/x'', headers = [''host'' \<mapsto> ''proxy.example''], remoteAddress = []\<rparr>
        (\<lambda>n u. Some \<lparr>status = 200, rheaders = [(''content-length'', ''27'')], body = ''curl https://github.com/a/b''\<rparr>)
        ''https://github.com/a/b/raw/main/install.sh?raw=1'' 0)
     = \<lparr>code = 200, sent_headers = [(''content-length'', ''27'')], content = Text ''curl https://github.com/a/b'', piped = True\<rparr>\<close>
  by code_simp

text \<open>
  Claim C7, amended. When the URL fetched last (the request URL or the last redirect
  target, as a whole string) ends in \<open>.sh\<close> or \<open>.ps1\<close> in any case, and the final
  response passes the gates, the reply has the upstream status, is sent whole, carries
  the copied headers without \<open>Content-Length\<close>, and its body is the upstream body with
  first every match of \<open>https?://github\.com/[^\s"']+\<close> and then every match of
  \<open>https?://raw\.githubusercontent\.com/[^\s"']+\<close> replaced by the base, a slash and
  the match. The base is \<open>X-Forwarded-Host\<close> (or \<open>Host\<close>) with \<open>https://\<close> in front
  unless it starts with a scheme. The replacement of one pattern leaves the text before
  the first match alone, puts the base and a slash in front of the match and goes on
  behind it; a text with no match is unchanged.
\<close>

theorem script_rewrite:
  assumes "n \<le> 20" and "fetch n url = Some r"
    and "\<not> (truthy (headers_get r ''location'') \<and> status r \<ge> 300 \<and> status r < 400)"
    and "\<not> (reqMethod req = ''GET'' \<and> status r \<ge> 200 \<and> status r < 300 \<and> baseType r \<in> set blockedContentTypes)"
    and "\<not> tooLarge fs r"
    and "endsWith (toLowerCase url) ''.sh'' \<or> endsWith (toLowerCase url) ''.ps1''"
  shows "proxyGitHubRequest fs req fetch url n =
           (\<lparr>code = status r,
             sent_headers = filter (\<lambda>kv. fst kv \<noteq> ''content-length'') (copyResponseHeaders r),
             content = Text (replaceUrls ''raw.githubusercontent.com'' (realHost req)
                              (replaceUrls ''github.com'' (realHost req) (body r))),
             piped = False\<rparr>, [url])
       \<and> ''content-length'' \<notin> fst ` set (sent_headers (fst (proxyGitHubRequest fs req fetch url n)))
       \<and> ((\<forall>i<length pre. urlMatchLen host (drop i (pre @ m @ post)) = None) \<and>
           urlMatchLen host (m @ post) = Some (length m) \<longrightarrow>
             replaceUrls host base (pre @ m @ post) = pre @ base @ ''/'' @ m @ replaceUrls host base post)
       \<and> ((\<forall>i<length s. urlMatchLen host (drop i s) = None) \<longrightarrow> replaceUrls host base s = s)"
proof -
  note fin = walk_final[where fetch = fetch and n = n and url = url and r = r, OF assms(1,2,3)]
  have eq: "proxyGitHubRequest fs req fetch url n =
           (\<lparr>code = status r,
             sent_headers = filter (\<lambda>kv. fst kv \<noteq> ''content-length'') (copyResponseHeaders r),
             content = Text (replaceUrls ''raw.githubusercontent.com'' (realHost req)
                              (replaceUrls ''github.com'' (realHost req) (body r))),
             piped = False\<rparr>, [url])"
    using assms(4,5,6) unfolding fin finalResponse_def rewriteScript_def Let_def by auto
  show ?thesis
    unfolding eq using no_content_length replaceUrls_occurrence replaceUrls_unchanged
    by (intro conjI impI) (simp, simp, blast, blast)
qed

theorem script_rewrite_witness:
  "proxyGitHubRequest 100
      \<lparr>reqMethod = ''GET'', path = ''/x'', headers = [''host'' \<mapsto> ''proxy.example''], remoteAddress = []\<rparr>
      (\<lambda>n u. Some \<lparr>status = 200, rheaders = [(''content-type'', ''text/plain''), (''content-length'', ''59'')],
                    body = ''curl -sSL https://github.com/a/b/releases/download/v1/x.bin''\<rparr>)
      ''https://raw.githubusercontent.com/a/b/main/Install.SH'' 0
     = (\<lparr>code = 200, sent_headers = [(''content-type'', ''text/plain'')],
         content = Text ''curl -sSL https://proxy.example/https://github.com/a/b/releases/download/v1/x.bin'',
         piped = False\<rparr>, [''https://raw.githubusercontent.com/a/b/main/Install.SH''])
   \<and> replaceUrls ''github.com'' ''https://p.example'' (''get '' @ ''http://github.com/a/b.bin'' @ '' -o x'')
       = ''get '' @ ''https://p.example'' @ ''/'' @ ''http://github.com/a/b.bin'' @ '' -o x''
   \<and> replaceUrls ''github.com'' ''https://p.example'' ''echo hi'' = ''echo hi''"
proof -
  let ?req = "\<lparr>reqMethod = ''GET'', path = ''/x'', headers = [''host'' \<mapsto> ''proxy.example''], remoteAddress = []\<rparr>"
  let ?r = "\<lparr>status = 200, rheaders = [(''content-type'', ''text/plain''), (''content-length'', ''59'')],
                    body = ''curl -sSL https://github.com/a/b/releases/download/v1/x.bin''\<rparr>"
  let ?url = "''https://raw.githubusercontent.com/a/b/main/Install.SH''"
  have h1: "(0::nat) \<le> 20" by simp
  have h2: "(\<lambda>n u. Some ?r) (0::nat) ?url = Some ?r" by simp
  have h3: "\<not> (truthy (headers_get ?r ''location'') \<and> status ?r \<ge> 300 \<and> status ?r < 400)" by simp
  have h4: "\<not> (reqMethod ?req = ''GET'' \<and> status ?r \<ge> 200 \<and> status ?r < 300 \<and> baseType ?r \<in> set blockedContentTypes)"
    by code_simp
  have h5: "\<not> tooLarge 100 ?r" by code_simp
  have h6: "endsWith (toLowerCase ?url) ''.sh'' \<or> endsWith (toLowerCase ?url) ''.ps1''" by code_simp
  note main = script_rewrite [where n = 0 and fetch = "\<lambda>n u. Some ?r" and url = ?url and r = ?r and req = ?req and fs = 100
      and pre = "''get ''" and host = "''github.com''" and m = "''http://github.com/a/b.bin''" and post = "'' -o x''"
      and base = "''https://p.example''" and s = "''echo hi''", OF h1 h2 h3 h4 h5 h6]
  have v1: "filter (\<lambda>kv. fst kv \<noteq> ''content-length'') (copyResponseHeaders ?r) = [(''content-type'', ''text/plain'')]"
    by code_simp
  have v2: "replaceUrls ''raw.githubusercontent.com'' (realHost ?req) (replaceUrls ''github.com'' (realHost ?req) (body ?r))
      = ''curl -sSL https://proxy.example/https://github.com/a/b/releases/download/v1/x.bin''"
    by code_simp
  have a1: "\<forall>i<length ''get ''. urlMatchLen ''github.com'' (drop i (''get '' @ ''http://github.com/a/b.bin'' @ '' -o x'')) = None"
    unfolding all_less_length_Cons by (simp add: urlMatchLen_def startsWith_def)
  have a2: "urlMatchLen ''github.com'' (''http://github.com/a/b.bin'' @ '' -o x'') = Some (length ''http://github.com/a/b.bin'')"
    by code_simp
  have a3: "\<forall>i<length ''echo hi''. urlMatchLen ''github.com'' (drop i ''echo hi'') = None"
    unfolding all_less_length_Cons by (simp add: urlMatchLen_def startsWith_def)
  from main have "proxyGitHubRequest 100 ?req (\<lambda>n u. Some ?r) ?url 0 =
      (\<lparr>code = status ?r, sent_headers = filter (\<lambda>kv. fst kv \<noteq> ''content-length'') (copyResponseHeaders ?r),
        content = Text (replaceUrls ''raw.githubusercontent.com'' (realHost ?req)
                          (replaceUrls ''github.com'' (realHost ?req) (body ?r))),
        piped = False\<rparr>, [?url])" by (rule conjunct1)
  then have c1: "proxyGitHubRequest 100 ?req (\<lambda>n u. Some ?r) ?url 0 =
      (\<lparr>code = 200, sent_headers = [(''content-type'', ''text/plain'')],
         content = Text ''curl -sSL https://proxy.example/https://github.com/a/b/releases/download/v1/x.bin'',
         piped = False\<rparr>, [?url])" unfolding v1 v2 by simp
  from main a1 a2 have c2: "replaceUrls ''github.com'' ''https://p.example'' (''get '' @ ''http://github.com/a/b.bin'' @ '' -o x'')
       = ''get '' @ ''https://p.example'' @ ''/'' @ ''http://github.com/a/b.bin'' @ replaceUrls ''github.com'' ''https://p.example'' '' -o x''"
    by blast
  have c2': "replaceUrls ''github.com'' ''https://p.example'' '' -o x'' = '' -o x''" by code_simp
  from main a3 have c3: "replaceUrls ''github.com'' ''https://p.example'' ''echo hi'' = ''echo hi''" by blast
  from c1 c2 c2' c3 show ?thesis by (simp only: simp_thms)
qed

section \<open>Proofs: routes/docker.js\<close>

subsection \<open>Docker Hub images without a namespace\<close>


lemma startsWith_append: "startsWith (p @ s) p"
  by (simp add: startsWith_def)

lemma startsWith_Cons: "startsWith (c # s) (d # p) = (c = d \<and> startsWith s p)"
  by (auto simp: startsWith_def)

lemma findKeyword_image:
  assumes "k \<notin> set name" and "ref \<noteq> []" and "pre @ name \<noteq> []"
  shows "findKeyword (k # kw) pre (name @ (k # kw) @ ref) = Some (pre @ name, ref)"
  using assms
proof (induction name arbitrary: pre)
  case Nil
  then show ?case by (cases ref) (simp_all add: startsWith_def)
next
  case (Cons c name)
  then have "c \<noteq> k" by auto
  then have "\<not> startsWith (c # name @ (k # kw) @ ref) (k # kw)" by (simp add: startsWith_Cons)
  moreover have "findKeyword (k # kw) (pre @ [c]) (name @ (k # kw) @ ref) = Some ((pre @ [c]) @ name, ref)"
    using Cons by (intro Cons.IH) auto
  ultimately show ?case by simp
qed

lemma matchApi_image:
  assumes "CHR ''/'' \<notin> set name" "name \<noteq> []" "ref \<noteq> []"
    "\<not> list_ex isLineTerminator name" "\<not> list_ex isLineTerminator ref"
  shows "matchApi ''/manifests/'' (name @ ''/manifests/'' @ ref) = Some (name, ref)"
proof -
  have lt: "\<not> list_ex isLineTerminator (name @ ''/manifests/'' @ ref)"
    using assms(4,5) by (auto simp: list_ex_iff isLineTerminator_def)
  have "findKeyword (CHR ''/'' # ''manifests/'') [] (name @ (CHR ''/'' # ''manifests/'') @ ref) = Some ([] @ name, ref)"
    by (rule findKeyword_image) (use assms in simp_all)
  then show ?thesis unfolding matchApi_def using lt by simp
qed

lemma detect_none:
  assumes "list_all (\<lambda>(domain, m). \<not> startsWith p (domain @ ''/'') \<and> \<not> startsWith p (''/'' @ domain @ ''/'')) regs"
  shows "detectRegistryDomain regs p = Some (None, p)"
  using assms by (induction regs) auto

lemma no_leading_slash:
  assumes "name \<noteq> []" "CHR ''/'' \<notin> set name"
  shows "\<not> startsWith (name @ rest) (''/'' @ domain @ ''/'')"
  using assms by (cases name) (auto simp: startsWith_Cons)

lemma parse_manifest_path:
  assumes name: "name \<noteq> []" "CHR ''/'' \<notin> set name" "\<not> list_ex isLineTerminator name"
    and ref: "ref \<noteq> []" "\<not> list_ex isLineTerminator ref"
    and nokey: "list_all (\<lambda>(domain, m). \<not> startsWith (name @ ''/manifests/'' @ ref) (domain @ ''/''))
                  (registries cfg)"
  shows "parseRegistryPath cfg (''/v2/'' @ name @ ''/manifests/'' @ ref)
       = Some \<lparr>imageName = name, apiType = ''manifests'', reference = ref, registryDomain = None\<rparr>"
proof -
  have s: "stripV2 (''/v2/'' @ name @ ''/manifests/'' @ ref) = name @ ''/manifests/'' @ ref"
    by (simp add: stripV2_def startsWith_def)
  have "list_all (\<lambda>(domain, m). \<not> startsWith (name @ ''/manifests/'' @ ref) (domain @ ''/'') \<and>
                     \<not> startsWith (name @ ''/manifests/'' @ ref) (''/'' @ domain @ ''/'')) (registries cfg)"
    using nokey no_leading_slash[OF name(1,2)] by (auto simp: list_all_iff)
  then have d: "detectRegistryDomain (registries cfg) (name @ ''/manifests/'' @ ref)
              = Some (None, name @ ''/manifests/'' @ ref)"
    by (rule detect_none)
  have t: "truthy (None :: string option) = False" by (simp add: truthy_def)
  note m = matchApi_image[OF name(2,1) ref(1) name(3) ref(2)]
  show ?thesis
    unfolding parseRegistryPath_def s d option.case prod.case t if_False classifyPath_def m
    by simp
qed

lemma denied_request_is_not_dispatched:
  assumes "imageName parsed \<noteq> []"
    and "checkDockerAccess cfg (if truthy (registryDomain parsed)
                                 then the (registryDomain parsed) @ ''/'' @ imageName parsed
                                 else imageName parsed) \<noteq> None"
  shows "handleParsed cfg authFetch fetch now tokenCache req parsed
       = \<lparr>reply = \<lparr>code = 403, sent_headers = [], content = AccessDenied, piped = False\<rparr>,
          tokenScope = None, tokenRun = None, upstreamURL = None, upstreamHeaders = []\<rparr>"
  using assms by (simp add: handleParsed_def noDispatch_def Let_def)


lemma authUrlFor_dockerhub:
  "authUrlFor cfg scope None = Some (''https://auth.docker.io/token?service=registry.docker.io&scope=''
                      @ encodeURIComponent scope)"
  by (simp add: authUrlFor_def truthy_def DOCKER_HUB_AUTH_def)

lemma getAuthToken_miss:
  assumes "\<not> truthy (fst (cache_get (''token:docker:'' @ scope) now tokenCache))"
  shows "authFetched (getAuthToken cfg authFetch now scope None tokenCache)
       = Some (''https://auth.docker.io/token?service=registry.docker.io&scope='' @ encodeURIComponent scope)"
proof -
  obtain cached cache1 where c: "cache_get (''token:docker:'' @ scope) now tokenCache = (cached, cache1)"
    by (cases "cache_get (''token:docker:'' @ scope) now tokenCache")
  with assms have nt: "\<not> truthy cached" by simp
  have t: "truthy (None :: string option) = False" by (simp add: truthy_def)
  have k: "''token:'' @ ''docker'' @ '':'' @ scope = ''token:docker:'' @ scope" by simp
  show ?thesis
    unfolding getAuthToken_def Let_def t if_False k c prod.case authUrlFor_dockerhub option.case
    using nt by simp
qed

lemma buildUpstreamURL_library:
  "CHR ''/'' \<notin> set name \<Longrightarrow>
   buildUpstreamURL cfg None name ''manifests'' ref
     = ''https://registry-1.docker.io/v2/library/'' @ name @ ''/manifests/'' @ ref"
  by (simp add: buildUpstreamURL_def truthy_def DOCKER_HUB_REGISTRY_def)

text \<open>
  Claim C1 speaks of every request \<open>GET /v2/<name>/manifests/<ref>\<close> with such a
  name. Between the classification and the dispatch stands the access check: with
  \<open>nginx\<close> on the deny list the request for \<open>nginx:alpine\<close> is answered 403, no token
  is asked for and nothing is fetched.
\<close>

theorem denied_image_is_not_dispatched:
  "proxyDockerRegistry
      \<lparr>registries = [(''ghcr.io'', \<lparr>upstream = ''ghcr.io'', authHost = ''ghcr.io/token'', authType = ''github'', enabled = True\<rparr>)],
        accessWhiteList = [], accessBlackList = [''nginx'']\<rparr>
      (\<lambda>u. Some ''tok'') (\<lambda>u hs. Some \<lparr>status = 200, rheaders = [], body = ''{}''\<rparr>) 0 (newCache 500 1200000)
      \<lparr>reqMethod = ''GET'', path = ''/v2/nginx/manifests/alpine'', headers = [''host'' \<mapsto> ''proxy.example''], remoteAddress = []\<rparr>
     = Some \<lparr>reply = \<lparr>code = 403, sent_headers = [], content = AccessDenied, piped = False\<rparr>,
             tokenScope = None, tokenRun = None, upstreamURL = None, upstreamHeaders = []\<rparr>"
  by code_simp

text \<open>
  The claim also lets a name pass that \<open>does not begin with a configured registry host\<close>.
  What the code tests is whether the path behind \<open>/v2/\<close> starts with a configured key
  and a slash; a key is any text of the configuration. With the key \<open>nginx/manifests\<close>
  the name \<open>nginx\<close> does not begin with the key, and the request for \<open>nginx:alpine\<close> is
  sent to the upstream of that key as the image \<open>alpine\<close>.
\<close>

lemma registry_key_with_slash:
  "map_option upstreamURL (proxyDockerRegistry
      \<lparr>registries = [(''nginx/manifests'', \<lparr>upstream = ''up.example'', authHost = ''up.example/token'',
                         authType = ''anonymous'', enabled = True\<rparr>)],
        accessWhiteList = [], accessBlackList = []\<rparr>
      (\<lambda>u. None) (\<lambda>u hs. Some \<lparr>status = 200, rheaders = [], body = ''{}''\<rparr>) 0 (newCache 500 1200000)
      \<lparr>reqMethod = ''GET'', path = ''/v2/nginx/manifests/alpine'', headers = Map.empty, remoteAddress = []\<rparr>)
     = Some (Some ''https://up.example/v2/alpine'')"
  by code_simp

text \<open>
  Claim C1, amended by the access check and by the test for a registry key that the
  code makes. Let the path be \<open>/v2/<name>/manifests/<ref>\<close> where \<open>name\<close> is not empty and
  has no slash, \<open>ref\<close> is not empty, neither holds a line terminator (no request path
  does), and \<open><name>/manifests/<ref>\<close> does not start with a configured registry key
  followed by a slash. If \<open>checkDockerAccess\<close> allows \<open>name\<close>, the handler asks
  \<open>getAuthToken\<close> for the scope \<open>repository:library/<name>:pull\<close> of Docker Hub (on a
  cache miss that fetches \<open>https://auth.docker.io/token?service=registry.docker.io&scope=\<close>
  followed by the encoded scope) and fetches
  \<open>https://registry-1.docker.io/v2/library/<name>/manifests/<ref>\<close>. If
  \<open>checkDockerAccess\<close> denies \<open>name\<close>, the answer is 403, no token is asked for and
  nothing is fetched.
\<close>

theorem dockerhub_library_prefix:
  assumes name: "name \<noteq> []" "CHR ''/'' \<notin> set name" "\<not> list_ex isLineTerminator name"
    and ref: "ref \<noteq> []" "\<not> list_ex isLineTerminator ref"
    and nokey: "list_all (\<lambda>(domain, m). \<not> startsWith (name @ ''/manifests/'' @ ref) (domain @ ''/''))
                  (registries cfg)"
    and path: "path req = ''/v2/'' @ name @ ''/manifests/'' @ ref"
  shows "(checkDockerAccess cfg name = None \<longrightarrow>
            map_option upstreamURL (proxyDockerRegistry cfg authFetch fetch now tokenCache req)
              = Some (Some (''https://registry-1.docker.io/v2/library/'' @ name @ ''/manifests/'' @ ref))
          \<and> map_option tokenScope (proxyDockerRegistry cfg authFetch fetch now tokenCache req)
              = Some (Some (''repository:library/'' @ name @ '':pull''))
          \<and> map_option tokenRun (proxyDockerRegistry cfg authFetch fetch now tokenCache req)
              = Some (Some (getAuthToken cfg authFetch now (''repository:library/'' @ name @ '':pull'') None tokenCache))
          \<and> (\<not> truthy (fst (cache_get (''token:docker:'' @ ''repository:library/'' @ name @ '':pull'') now tokenCache)) \<longrightarrow>
               authFetched (getAuthToken cfg authFetch now (''repository:library/'' @ name @ '':pull'') None tokenCache)
                 = Some (''https://auth.docker.io/token?service=registry.docker.io&scope=''
                         @ encodeURIComponent (''repository:library/'' @ name @ '':pull''))))
       \<and> (checkDockerAccess cfg name \<noteq> None \<longrightarrow>
            proxyDockerRegistry cfg authFetch fetch now tokenCache req
              = Some \<lparr>reply = \<lparr>code = 403, sent_headers = [], content = AccessDenied, piped = False\<rparr>,
                      tokenScope = None, tokenRun = None, upstreamURL = None, upstreamHeaders = []\<rparr>)"
proof -
  let ?parsed = "\<lparr>imageName = name, apiType = ''manifests'', reference = ref, registryDomain = None\<rparr>"
  note p = parse_manifest_path[OF name ref nokey]
  have np: "(''/v2/'' @ name @ ''/manifests/'' @ ref = ''/v2/'' \<or> ''/v2/'' @ name @ ''/manifests/'' @ ref = ''/v2'') = False"
    using name(1) by auto
  have main: "proxyDockerRegistry cfg authFetch fetch now tokenCache req
            = Some (handleParsed cfg authFetch fetch now tokenCache req ?parsed)"
    unfolding proxyDockerRegistry_def path np if_False p by simp
  have t: "truthy (None :: string option) = False" by (simp add: truthy_def)
  have sel: "imageName ?parsed = name" "apiType ?parsed = ''manifests''" "reference ?parsed = ref"
    "registryDomain ?parsed = None"
    by simp_all
  have ne: "(name = []) = False" "(CHR ''/'' \<in> set name) = False" using name by simp_all
  show ?thesis
  proof (intro conjI impI)
    assume "checkDockerAccess cfg name \<noteq> None"
    then have "checkDockerAccess cfg (if truthy (registryDomain ?parsed)
                 then the (registryDomain ?parsed) @ ''/'' @ imageName ?parsed
                 else imageName ?parsed) \<noteq> None"
      by (simp add: t)
    from denied_request_is_not_dispatched[OF _ this] name(1)
    show "proxyDockerRegistry cfg authFetch fetch now tokenCache req
              = Some \<lparr>reply = \<lparr>code = 403, sent_headers = [], content = AccessDenied, piped = False\<rparr>,
                      tokenScope = None, tokenRun = None, upstreamURL = None, upstreamHeaders = []\<rparr>"
      unfolding main by simp
  next
    assume access: "checkDockerAccess cfg name = None"
    then have acc: "(checkDockerAccess cfg name \<noteq> None) = False" by simp
    have run: "handleParsed cfg authFetch fetch now tokenCache req ?parsed =
       (let url = ''https://registry-1.docker.io/v2/library/'' @ name @ ''/manifests/'' @ ref;
            scope = ''repository:'' @ (''library/'' @ name) @ '':pull'';
            t = getAuthToken cfg authFetch now scope None tokenCache;
            hs = (if truthy (token t) then [(''Authorization'', ''Bearer '' @ the (token t))] else [])
                           @ (if truthy (headers req ''accept'') then [(''Accept'', the (headers req ''accept''))]
                              else if ''manifests'' = ''manifests'' then [(''Accept'', manifestAccept)]
                              else [])
        in case fetch url hs of
                       None \<Rightarrow>
                         \<lparr>reply = \<lparr>code = 500, sent_headers = [], content = ServerError, piped = False\<rparr>,
                          tokenScope = Some scope, tokenRun = Some t, upstreamURL = Some url,
                          upstreamHeaders = hs\<rparr>
                     | Some r \<Rightarrow>
                         \<lparr>reply = relayResponse req r,
                          tokenScope = Some scope, tokenRun = Some t, upstreamURL = Some url,
                          upstreamHeaders = hs\<rparr>)"
      unfolding handleParsed_def Let_def sel t if_False ne acc
        buildUpstreamURL_library[OF name(2)] ..
    show "map_option upstreamURL (proxyDockerRegistry cfg authFetch fetch now tokenCache req)
           = Some (Some (''https://registry-1.docker.io/v2/library/'' @ name @ ''/manifests/'' @ ref))"
      unfolding main option.map run Let_def by (simp split: option.splits)
    show "map_option tokenScope (proxyDockerRegistry cfg authFetch fetch now tokenCache req)
           = Some (Some (''repository:library/'' @ name @ '':pull''))"
      unfolding main option.map run Let_def by (simp split: option.splits)
    show "map_option tokenRun (proxyDockerRegistry cfg authFetch fetch now tokenCache req)
           = Some (Some (getAuthToken cfg authFetch now (''repository:library/'' @ name @ '':pull'') None tokenCache))"
      unfolding main option.map run Let_def by (simp split: option.splits)
  next
    assume "\<not> truthy (fst (cache_get (''token:docker:'' @ ''repository:library/'' @ name @ '':pull'') now tokenCache))"
    then show "authFetched (getAuthToken cfg authFetch now (''repository:library/'' @ name @ '':pull'') None tokenCache)
                 = Some (''https://auth.docker.io/token?service=registry.docker.io&scope=''
                         @ encodeURIComponent (''repository:library/'' @ name @ '':pull''))"
      by (rule getAuthToken_miss)
  qed
qed

theorem dockerhub_library_prefix_witness:
  "map_option upstreamURL (proxyDockerRegistry
      \<lparr>registries = [(''ghcr.io'', \<lparr>upstream = ''ghcr.io'', authHost = ''ghcr.io/token'', authType = ''github'', enabled = True\<rparr>)],
        accessWhiteList = [], accessBlackList = []\<rparr>
      (\<lambda>u. Some ''tok'') (\<lambda>u hs. Some \<lparr>status = 200, rheaders = [], body = ''{}''\<rparr>) 0 (newCache 500 1200000)
      \<lparr>reqMethod = ''GET'', path = ''/v2/nginx/manifests/alpine'', headers = [''host'' \<mapsto> ''proxy.example''], remoteAddress = []\<rparr>)
     = Some (Some ''https://registry-1.docker.io/v2/library/nginx/manifests/alpine'')
   \<and> map_option tokenScope (proxyDockerRegistry
      \<lparr>registries = [(''ghcr.io'', \<lparr>upstream = ''ghcr.io'', authHost = ''ghcr.io/token'', authType = ''github'', enabled = True\<rparr>)],
        accessWhiteList = [], accessBlackList = []\<rparr>
      (\<lambda>u. Some ''tok'') (\<lambda>u hs. Some \<lparr>status = 200, rheaders = [], body = ''{}''\<rparr>) 0 (newCache 500 1200000)
      \<lparr>reqMethod = ''GET'', path = ''/v2/nginx/manifests/alpine'', headers = [''host'' \<mapsto> ''proxy.example''], remoteAddress = []\<rparr>)
     = Some (Some ''repository:library/nginx:pull'')
   \<and> authFetched (getAuthToken
      \<lparr>registries = [(''ghcr.io'', \<lparr>upstream = ''ghcr.io'', authHost = ''ghcr.io/token'', authType = ''github'', enabled = True\<rparr>)],
        accessWhiteList = [], accessBlackList = []\<rparr>
      (\<lambda>u. Some ''tok'') 0 ''repository:library/nginx:pull'' None (newCache 500 1200000))
     = Some ''https://auth.docker.io/token?service=registry.docker.io&scope=repository%3Alibrary%2Fnginx%3Apull''
   \<and> proxyDockerRegistry
      \<lparr>registries = [(''ghcr.io'', \<lparr>upstream = ''ghcr.io'', authHost = ''ghcr.io/token'', authType = ''github'', enabled = True\<rparr>)],
        accessWhiteList = [''library/*''], accessBlackList = []\<rparr>
      (\<lambda>u. Some ''tok'') (\<lambda>u hs. Some \<lparr>status = 200, rheaders = [], body = ''{}''\<rparr>) 0 (newCache 500 1200000)
      \<lparr>reqMethod = ''GET'', path = ''/v2/nginx/manifests/alpine'', headers = [''host'' \<mapsto> ''proxy.example''], remoteAddress = []\<rparr>
     = Some \<lparr>reply = \<lparr>code = 403, sent_headers = [], content = AccessDenied, piped = False\<rparr>,
             tokenScope = None, tokenRun = None, upstreamURL = None, upstreamHeaders = []\<rparr>"
proof -
  let ?reg = "[(''ghcr.io'', \<lparr>upstream = ''ghcr.io'', authHost = ''ghcr.io/token'', authType = ''github'', enabled = True\<rparr>)]"
  let ?cfg = "\<lparr>registries = ?reg, accessWhiteList = [], accessBlackList = []\<rparr>"
  let ?cfg' = "\<lparr>registries = ?reg, accessWhiteList = [''library/*''], accessBlackList = []\<rparr>"
  let ?req = "\<lparr>reqMethod = ''GET'', path = ''/v2/nginx/manifests/alpine'', headers = [''host'' \<mapsto> ''proxy.example''], remoteAddress = []\<rparr>"
  have h2: "''nginx'' \<noteq> []" "CHR ''/'' \<notin> set ''nginx''" "\<not> list_ex isLineTerminator ''nginx''"
    by (simp_all add: isLineTerminator_def)
  have h4: "''alpine'' \<noteq> []" "\<not> list_ex isLineTerminator ''alpine''" by (simp_all add: isLineTerminator_def)
  have h3: "list_all (\<lambda>(domain, m). \<not> startsWith (''nginx'' @ ''/manifests/'' @ ''alpine'') (domain @ ''/''))
              (registries ?cfg)"
    "list_all (\<lambda>(domain, m). \<not> startsWith (''nginx'' @ ''/manifests/'' @ ''alpine'') (domain @ ''/''))
              (registries ?cfg')"
    by (simp_all add: startsWith_def)
  have h5: "path ?req = ''/v2/'' @ ''nginx'' @ ''/manifests/'' @ ''alpine''" by simp
  have h6: "checkDockerAccess ?cfg ''nginx'' = None" by (simp add: checkDockerAccess_def)
  have h6': "checkDockerAccess ?cfg' ''nginx'' \<noteq> None" by code_simp
  have h7: "\<not> truthy (fst (cache_get (''token:docker:'' @ ''repository:library/'' @ ''nginx'' @ '':pull'') 0
                (newCache 500 1200000 :: (string, string) Cache)))"
    by (simp add: cache_get_def newCache_def truthy_def)
  have e: "encodeURIComponent ''repository:library/nginx:pull'' = ''repository%3Alibrary%2Fnginx%3Apull''"
    by code_simp
  note allowed = dockerhub_library_prefix [where cfg = ?cfg and name = "''nginx''" and ref = "''alpine''" and req = ?req
      and authFetch = "\<lambda>u. Some ''tok''" and fetch = "\<lambda>u hs. Some \<lparr>status = 200, rheaders = [], body = ''{}''\<rparr>"
      and now = 0 and tokenCache = "newCache 500 1200000", OF h2 h4 h3(1) h5]
  note denied = dockerhub_library_prefix [where cfg = ?cfg' and name = "''nginx''" and ref = "''alpine''" and req = ?req
      and authFetch = "\<lambda>u. Some ''tok''" and fetch = "\<lambda>u hs. Some \<lparr>status = 200, rheaders = [], body = ''{}''\<rparr>"
      and now = 0 and tokenCache = "newCache 500 1200000", OF h2 h4 h3(2) h5]
  from allowed denied h6 h6' h7 e show ?thesis by simp
qed

subsection \<open>The \<open>WWW-Authenticate\<close> header\<close>

lemma expandReplacement_plain:
  "CHR ''$'' \<notin> set t \<Longrightarrow> expandReplacement m b a t = t"
  by (induction m b a t rule: expandReplacement.induct) auto

lemma realmMatchLen_pos: "realmMatchLen s = Some n \<Longrightarrow> s \<noteq> []"
  by (auto simp: realmMatchLen_def startsWith_def)

lemma replaceRealm_match:
  "realmMatchLen s = Some n \<Longrightarrow>
   replaceRealm rep bef s = bef @ expandReplacement (take n s) bef (drop n s) rep @ drop n s"
  using realmMatchLen_pos[of s n] by (cases s) auto

lemma replaceRealm_skip:
  "(\<forall>i<length pre. realmMatchLen (drop i (pre @ rest)) = None) \<Longrightarrow>
   replaceRealm rep bef (pre @ rest) = replaceRealm rep (bef @ pre) rest"
proof (induction pre arbitrary: bef)
  case Nil then show ?case by simp
next
  case (Cons c pre)
  from Cons.prems have h: "realmMatchLen ((c # pre) @ rest) = None" by force
  have "\<forall>i<length pre. realmMatchLen (drop i (pre @ rest)) = None"
  proof (intro allI impI)
    fix i assume "i < length pre"
    then have "Suc i < length (c # pre)" by simp
    with Cons.prems have "realmMatchLen (drop (Suc i) ((c # pre) @ rest)) = None" by blast
    then show "realmMatchLen (drop i (pre @ rest)) = None" by simp
  qed
  from Cons.IH[OF this, of "bef @ [c]"] h show ?case by simp
qed

lemma replaceRealm_Nil: "replaceRealm rep bef [] = bef"
  by simp

lemma realmMatchLen_exact:
  assumes "r \<noteq> []" "CHR 0x22 \<notin> set r"
  shows "realmMatchLen (''realm='' @ [CHR 0x22] @ r @ [CHR 0x22] @ post) = Some (length r + 8)"
proof -
  have tw: "takeWhile (\<lambda>c. c \<noteq> CHR 0x22) (r @ CHR 0x22 # post) = r"
    by (subst takeWhile_append2) (use assms in auto)
  have len: "length (''realm='' @ [CHR 0x22] @ r) = 7 + length r" by simp
  have "drop (7 + length r) ((''realm='' @ [CHR 0x22] @ r) @ CHR 0x22 # post) = CHR 0x22 # post"
    by (metis len append_eq_conv_conj)
  then have dr: "drop (7 + length r) (''realm='' @ [CHR 0x22] @ r @ [CHR 0x22] @ post) = CHR 0x22 # post"
    by simp
  have d7: "drop 7 (''realm='' @ [CHR 0x22] @ r @ [CHR 0x22] @ post) = r @ CHR 0x22 # post" by simp
  have sw: "startsWith (''realm='' @ [CHR 0x22] @ r @ [CHR 0x22] @ post) (''realm='' @ [CHR 0x22])"
    by (simp add: startsWith_def)
  show ?thesis
    unfolding realmMatchLen_def Let_def d7 tw dr using assms(1) sw by simp
qed

lemma rewriteWwwAuth_realm:
  assumes "CHR ''$'' \<notin> set (scheme req)" "CHR ''$'' \<notin> set (proxyHost req)"
    and "\<forall>i<length pre. realmMatchLen (drop i (pre @ ''realm='' @ [CHR 0x22] @ r @ [CHR 0x22] @ post)) = None"
    and "r \<noteq> []" "CHR 0x22 \<notin> set r"
  shows "rewriteWwwAuth req (pre @ ''realm='' @ [CHR 0x22] @ r @ [CHR 0x22] @ post)
       = pre @ ''realm='' @ [CHR 0x22] @ scheme req @ ''://'' @ proxyHost req @ ''/token'' @ [CHR 0x22] @ post"
proof -
  let ?rep = "''realm='' @ [CHR 0x22] @ scheme req @ ''://'' @ proxyHost req @ ''/token'' @ [CHR 0x22]"
  let ?m = "''realm='' @ [CHR 0x22] @ r @ [CHR 0x22]"
  have plain: "CHR ''$'' \<notin> set ?rep" using assms(1,2) by simp
  have ml: "realmMatchLen (?m @ post) = Some (length ?m)"
    using realmMatchLen_exact[OF assms(4,5), of post] by simp
  have "replaceRealm ?rep [] (pre @ ?m @ post) = replaceRealm ?rep ([] @ pre) (?m @ post)"
    by (rule replaceRealm_skip) (use assms(3) in simp)
  also have "\<dots> = pre @ expandReplacement (take (length ?m) (?m @ post)) pre (drop (length ?m) (?m @ post)) ?rep
                   @ drop (length ?m) (?m @ post)"
    using replaceRealm_match[OF ml, of ?rep pre] by simp
  also have "\<dots> = pre @ ?rep @ post"
    unfolding expandReplacement_plain[OF plain] by simp
  finally show ?thesis unfolding rewriteWwwAuth_def by simp
qed

text \<open>
  Claim C2 at a request whose \<open>X-Forwarded-Host\<close> is \<open>p.example$&\<close>. The new realm is
  handed to \<open>String.prototype.replace\<close> as a replacement string, in which \<open>$&\<close> stands
  for the matched text: the header sent to the client does not carry
  \<open>realm="https://p.example$&/token"\<close> but a realm with the upstream's realm argument
  pasted into it. (The script rewrite of \<open>routes/github.js\<close> passes a function to
  \<open>replace\<close> and inserts its base as it is.)
\<close>

theorem www_authenticate_dollar_pattern:
  \<open>map_option (\<lambda>run. sent_headers (reply run)) (proxyDockerRegistry
      \<lparr>registries = [], accessWhiteList = [], accessBlackList = []\<rparr>
      (\<lambda>u. None)
      (\<lambda>u hs. Some \<lparr>status = 401,
         rheaders = [(''content-type'', ''application/json''),
                     (''www-authenticate'', ''Bearer realm="https://auth.docker.io/token",service="registry.docker.io"'')],
         body = ''{}''\<rparr>)
      0 (newCache 500 1200000)
      \<lparr>reqMethod = ''GET'', path = ''/v2/nginx/manifests/alpine'',
        headers = [''x-forwarded-host'' \<mapsto> ''p.example$&''], remoteAddress = []\<rparr>)
   = Some [(''content-type'', ''application/json''),
      (''www-authenticate'',
       ''Bearer realm="https://p.examplerealm="https://auth.docker.io/token"/token",service="registry.docker.io"'')]\<close>
  by code_simp

text \<open>
  With a scheme and a host that hold no dollar sign the header is as claim C2 says:
  the first \<open>realm="..."\<close> argument becomes \<open>realm="<scheme>://<host>/token"\<close> and the
  text before and behind it is kept.
\<close>

theorem www_authenticate_realm:
  assumes "CHR ''$'' \<notin> set (scheme req)" "CHR ''$'' \<notin> set (proxyHost req)"
    and "\<forall>i<length pre. realmMatchLen (drop i (pre @ ''realm='' @ [CHR 0x22] @ r @ [CHR 0x22] @ post)) = None"
    and "r \<noteq> []" "CHR 0x22 \<notin> set r"
  shows "rewriteWwwAuth req (pre @ ''realm='' @ [CHR 0x22] @ r @ [CHR 0x22] @ post)
       = pre @ ''realm='' @ [CHR 0x22] @ scheme req @ ''://'' @ proxyHost req @ ''/token'' @ [CHR 0x22] @ post"
  using assms by (rule rewriteWwwAuth_realm)

theorem www_authenticate_realm_witness:
  \<open>rewriteWwwAuth
     \<lparr>reqMethod = ''GET'', path = ''/v2/nginx/manifests/alpine'',
       headers = [''host'' \<mapsto> ''proxy.example'', ''x-forwarded-proto'' \<mapsto> ''https''], remoteAddress = []\<rparr>
     ''Bearer realm="https://auth.docker.io/token",service="registry.docker.io",scope="repository:library/nginx:pull"''
   = ''Bearer realm="https://proxy.example/token",service="registry.docker.io",scope="repository:library/nginx:pull"''\<close>
proof -
  let ?req = "\<lparr>reqMethod = ''GET'', path = ''/v2/nginx/manifests/alpine'',
       headers = [''host'' \<mapsto> ''proxy.example'', ''x-forwarded-proto'' \<mapsto> ''https''], remoteAddress = []\<rparr>"
  let ?post = \<open>'',service="registry.docker.io",scope="repository:library/nginx:pull"''\<close>
  have s: "scheme ?req = ''https''" and h: "proxyHost ?req = ''proxy.example''"
    by (simp_all add: scheme_def proxyHost_def truthy_def)
  have a: "CHR ''$'' \<notin> set (scheme ?req)" "CHR ''$'' \<notin> set (proxyHost ?req)"
    unfolding s h by simp_all
  have b: "\<forall>i<length ''Bearer ''. realmMatchLen (drop i (''Bearer '' @ ''realm='' @ [CHR 0x22]
        @ ''https://auth.docker.io/token'' @ [CHR 0x22] @ ?post)) = None"
    unfolding all_less_length_Cons by (simp add: realmMatchLen_def startsWith_def)
  have c: "''https://auth.docker.io/token'' \<noteq> []" "CHR 0x22 \<notin> set ''https://auth.docker.io/token''"
    by simp_all
  from www_authenticate_realm [OF a b c] show ?thesis unfolding s h by simp
qed

text \<open>The whole handler on the third scenario of the specification.\<close>

lemma www_authenticate_scenario:
  \<open>map_option (\<lambda>run. sent_headers (reply run)) (proxyDockerRegistry
      \<lparr>registries = [], accessWhiteList = [], accessBlackList = []\<rparr>
      (\<lambda>u. None)
      (\<lambda>u hs. Some \<lparr>status = 401,
         rheaders = [(''content-type'', ''application/json''),
                     (''www-authenticate'', ''Bearer realm="https://auth.docker.io/token",service="registry.docker.io",scope="repository:library/nginx:pull"'')],
         body = ''{}''\<rparr>)
      0 (newCache 500 1200000)
      \<lparr>reqMethod = ''GET'', path = ''/v2/nginx/manifests/alpine'',
        headers = [''host'' \<mapsto> ''proxy.example'', ''x-forwarded-proto'' \<mapsto> ''https''], remoteAddress = []\<rparr>)
   = Some [(''content-type'', ''application/json''),
      (''www-authenticate'',
       ''Bearer realm="https://proxy.example/token",service="registry.docker.io",scope="repository:library/nginx:pull"'')]\<close>
  by code_simp

text \<open>
  The other half of the header handling: the copy loop drops every upstream
  \<open>www-authenticate\<close> header, whatever its case, and the handler sets one only when
  \<open>response.headers.get('www-authenticate')\<close> is truthy. The replies the handler builds
  itself (200 for the version check, 400, 403, 500) carry no header at all.
\<close>

lemma lower_www: "toLowerCase ''www-authenticate'' = ''www-authenticate''"
  by code_simp

lemma relayResponse_no_header:
  assumes "\<not> truthy (headers_get r ''www-authenticate'')"
  shows "''www-authenticate'' \<notin> fst ` set (sent_headers (relayResponse req r))"
proof -
  have "''www-authenticate'' \<notin> fst ` set (filter (\<lambda>kv. toLowerCase (fst kv) \<notin>
                 set [''transfer-encoding'', ''connection'', ''www-authenticate'']) (rheaders r))"
    using lower_www by auto
  with assms show ?thesis by (simp add: relayResponse_def Let_def)
qed

lemma relayed_or_empty:
  "sent_headers (reply (case fetch u h of
       None \<Rightarrow> \<lparr>reply = \<lparr>code = c, sent_headers = [], content = p, piped = b\<rparr>,
                 tokenScope = s, tokenRun = t, upstreamURL = uu, upstreamHeaders = hh\<rparr>
     | Some r \<Rightarrow> \<lparr>reply = relayResponse req r,
                 tokenScope = s, tokenRun = t, upstreamURL = uu, upstreamHeaders = hh\<rparr>)) = [] \<or>
   (\<exists>url hs r. fetch url hs = Some r \<and>
      reply (case fetch u h of
       None \<Rightarrow> \<lparr>reply = \<lparr>code = c, sent_headers = [], content = p, piped = b\<rparr>,
                 tokenScope = s, tokenRun = t, upstreamURL = uu, upstreamHeaders = hh\<rparr>
     | Some r \<Rightarrow> \<lparr>reply = relayResponse req r,
                 tokenScope = s, tokenRun = t, upstreamURL = uu, upstreamHeaders = hh\<rparr>) = relayResponse req r)"
proof (cases "fetch u h")
  case None
  then show ?thesis by simp
next
  case (Some r)
  then have "fetch u h = Some r \<and>
      reply (case fetch u h of
       None \<Rightarrow> \<lparr>reply = \<lparr>code = c, sent_headers = [], content = p, piped = b\<rparr>,
                 tokenScope = s, tokenRun = t, upstreamURL = uu, upstreamHeaders = hh\<rparr>
     | Some r \<Rightarrow> \<lparr>reply = relayResponse req r,
                 tokenScope = s, tokenRun = t, upstreamURL = uu, upstreamHeaders = hh\<rparr>) = relayResponse req r"
    by simp
  then show ?thesis by blast
qed

lemma handled_reply_cases:
  "sent_headers (reply (handleParsed cfg authFetch fetch now tokenCache req parsed)) = [] \<or>
   (\<exists>url hs r. fetch url hs = Some r \<and>
      reply (handleParsed cfg authFetch fetch now tokenCache req parsed) = relayResponse req r)"
proof -
  let ?run = "handleParsed cfg authFetch fetch now tokenCache req parsed"
  let ?full = "if truthy (registryDomain parsed) then the (registryDomain parsed) @ ''/'' @ imageName parsed
               else imageName parsed"
  have e: "sent_headers (reply (noDispatch \<lparr>code = c, sent_headers = [], content = p, piped = False\<rparr>)) = []"
    for c p by (simp add: noDispatch_def)
  show ?thesis
  proof (cases "imageName parsed = []")
    case True
    then have t2: "(imageName parsed = []) = True" by simp
    have "?run = noDispatch \<lparr>code = 400, sent_headers = [], content = InvalidRequestPath, piped = False\<rparr>"
      unfolding handleParsed_def Let_def t2 by (simp only: if_True if_False)
    then show ?thesis by (simp only: e simp_thms)
  next
    case False
    then have c2: "(imageName parsed = []) = False" by simp
    show ?thesis
    proof (cases "checkDockerAccess cfg ?full \<noteq> None")
      case True
      then have t3: "(checkDockerAccess cfg ?full \<noteq> None) = True" by simp
      have "?run = noDispatch \<lparr>code = 403, sent_headers = [], content = AccessDenied, piped = False\<rparr>"
        unfolding handleParsed_def Let_def c2 t3 by (simp only: if_True if_False)
      then show ?thesis by (simp only: e simp_thms)
    next
      case False
      then have c3: "(checkDockerAccess cfg ?full \<noteq> None) = False" by simp
      show ?thesis
        unfolding handleParsed_def Let_def c2 c3 if_False
        by (rule relayed_or_empty[where fetch = fetch])
    qed
  qed
qed

lemma detect_plain_keys:
  "\<not> list_ex (\<lambda>(domain, m). list_ex regexSyntaxChar domain) regs \<Longrightarrow> detectRegistryDomain regs p \<noteq> None"
  by (induction regs) auto

text \<open>
  When no registry key holds a character of the regular-expression syntax (other than
  the dot) and no upstream response carries a \<open>WWW-Authenticate\<close> header, the reply of
  \<open>proxyDockerRegistry\<close> has no \<open>www-authenticate\<close> header, for every request and token
  cache.
\<close>

theorem www_authenticate_absent:
  assumes keys: "\<not> list_ex (\<lambda>(domain, m). list_ex regexSyntaxChar domain) (registries cfg)"
    and none: "\<forall>url hs r. fetch url hs = Some r \<longrightarrow> \<not> truthy (headers_get r ''www-authenticate'')"
  shows "(case proxyDockerRegistry cfg authFetch fetch now tokenCache req of
            None \<Rightarrow> False
          | Some run \<Rightarrow> ''www-authenticate'' \<notin> fst ` set (sent_headers (reply run)))"
proof (cases "path req = ''/v2/'' \<or> path req = ''/v2''")
  case True
  then show ?thesis by (auto simp: proxyDockerRegistry_def noDispatch_def)
next
  case False
  from detect_plain_keys[OF keys, of "stripV2 (path req)"]
  obtain d rem where "detectRegistryDomain (registries cfg) (stripV2 (path req)) = Some (d, rem)"
    by (cases "detectRegistryDomain (registries cfg) (stripV2 (path req))") auto
  then obtain parsed where p: "parseRegistryPath cfg (path req) = Some parsed"
    by (simp add: parseRegistryPath_def)
  have run: "proxyDockerRegistry cfg authFetch fetch now tokenCache req
           = Some (handleParsed cfg authFetch fetch now tokenCache req parsed)"
    using False by (simp add: proxyDockerRegistry_def p)
  have "''www-authenticate'' \<notin>
          fst ` set (sent_headers (reply (handleParsed cfg authFetch fetch now tokenCache req parsed)))"
    using handled_reply_cases[of cfg authFetch fetch now tokenCache req parsed] none relayResponse_no_header
    by (metis empty_iff image_empty list.set(1))
  then show ?thesis by (simp add: run)
qed

theorem www_authenticate_absent_witness:
  "map_option (\<lambda>run. ''www-authenticate'' \<in> fst ` set (sent_headers (reply run))) (proxyDockerRegistry
      \<lparr>registries = [(''ghcr.io'', \<lparr>upstream = ''ghcr.io'', authHost = ''ghcr.io/token'', authType = ''github'', enabled = True\<rparr>)],
        accessWhiteList = [], accessBlackList = []\<rparr>
      (\<lambda>u. None)
      (\<lambda>u hs. Some \<lparr>status = 200, rheaders = [(''content-type'', ''application/json'')], body = ''{}''\<rparr>)
      0 (newCache 500 1200000)
      \<lparr>reqMethod = ''GET'', path = ''/v2/nginx/manifests/alpine'',
        headers = [''host'' \<mapsto> ''proxy.example''], remoteAddress = []\<rparr>) = Some False"
proof -
  let ?cfg = "\<lparr>registries = [(''ghcr.io'', \<lparr>upstream = ''ghcr.io'', authHost = ''ghcr.io/token'', authType = ''github'', enabled = True\<rparr>)],
        accessWhiteList = [], accessBlackList = []\<rparr>"
  have k: "\<not> list_ex (\<lambda>(domain, m). list_ex regexSyntaxChar domain) (registries ?cfg)"
    by (simp add: regexSyntaxChar_def)
  have n: "\<forall>url hs r. (\<lambda>u hs. Some \<lparr>status = 200, rheaders = [(''content-type'', ''application/json'')], body = ''{}''\<rparr>) url hs = Some r
             \<longrightarrow> \<not> truthy (headers_get r ''www-authenticate'')"
    by (simp add: headers_get_def truthy_def)
  from www_authenticate_absent[where cfg = ?cfg and authFetch = "\<lambda>u. None" and now = 0
      and tokenCache = "newCache 500 1200000"
      and req = "\<lparr>reqMethod = ''GET'', path = ''/v2/nginx/manifests/alpine'',
        headers = [''host'' \<mapsto> ''proxy.example''], remoteAddress = []\<rparr>", OF k n]
  show ?thesis
    by (simp split: option.splits)
qed

end
